theory Spec2Isabelle
  imports Main "HOL-Library.Multiset"
begin

section \<open>Diff model (diff_parser.py, classes DiffFile, DiffHunk, DiffLine)\<close>

text \<open>
  Python strings are modelled as \<open>string\<close> (a list of characters); a character stands
  for a code point below 256. Python integers that the parser produces come from
  \<^verbatim>\<open>\d+\<close> and are never negative, so they are modelled as \<open>nat\<close>.
  The three values of \<^verbatim>\<open>line_type\<close> ('context', 'addition', 'deletion')
  are the constructors of \<open>line_kind\<close>.
\<close>

datatype line_kind = Context | Addition | Deletion

record DiffLine =
  content :: string
  line_type :: line_kind
  old_line_num :: "nat option"
  new_line_num :: "nat option"

record DiffHunk =
  old_start :: nat
  old_count :: nat
  new_start :: nat
  new_count :: nat
  lines :: "DiffLine list"

record DiffFile =
  old_path :: string
  new_path :: string
  hunks :: "DiffHunk list"

definition mk_DiffFile :: "string \<Rightarrow> string \<Rightarrow> DiffFile" where
  "mk_DiffFile op np = \<lparr>old_path = op, new_path = np, hunks = []\<rparr>"

definition mk_DiffHunk :: "nat \<Rightarrow> nat \<Rightarrow> nat \<Rightarrow> nat \<Rightarrow> DiffHunk" where
  "mk_DiffHunk os oc ns nc =
     \<lparr>old_start = os, old_count = oc, new_start = ns, new_count = nc, lines = []\<rparr>"

definition get_path :: "DiffFile \<Rightarrow> string" where
  "get_path f = (if new_path f \<noteq> ''/dev/null'' then new_path f else old_path f)"

section \<open>String primitives of Python used by the parser\<close>

definition startswith :: "string \<Rightarrow> string \<Rightarrow> bool" where
  "startswith s p = (take (length p) s = p)"

text \<open>\<^verbatim>\<open>p in s\<close> for strings: \<open>p\<close> occurs in \<open>s\<close> as a contiguous substring.\<close>

fun contains_str :: "string \<Rightarrow> string \<Rightarrow> bool" where
  "contains_str [] p = (p = [])"
| "contains_str (c # cs) p = (startswith (c # cs) p \<or> contains_str cs p)"

text \<open>
  The line boundaries of \<^verbatim>\<open>str.splitlines\<close> among the code points below 256:
  LF, CR (CR LF counts once), VT, FF, FS, GS, RS and NEL.
\<close>

definition is_linebreak :: "char \<Rightarrow> bool" where
  "is_linebreak c = (c \<in> set [CHR 0x0A, CHR 0x0D, CHR 0x0B, CHR 0x0C,
                                CHR 0x1C, CHR 0x1D, CHR 0x1E, CHR 0x85])"

fun splitlines_from :: "string \<Rightarrow> string \<Rightarrow> string list" where
  "splitlines_from cur [] = (if cur = [] then [] else [cur])"
| "splitlines_from cur (c # cs) =
     (if c = CHR 0x0D then
        (case cs of
           d # ds \<Rightarrow> if d = CHR 0x0A then cur # splitlines_from [] ds
                     else cur # splitlines_from [] cs
         | [] \<Rightarrow> cur # splitlines_from [] cs)
      else if is_linebreak c then cur # splitlines_from [] cs
      else splitlines_from (cur @ [c]) cs)"

definition splitlines :: "string \<Rightarrow> string list" where
  "splitlines s = splitlines_from [] s"

text \<open>\<^verbatim>\<open>\d\<close> on code points below 256 is the ASCII digits; \<^verbatim>\<open>int\<close> reads them in base ten.\<close>

definition is_digit :: "char \<Rightarrow> bool" where
  "is_digit c = (48 \<le> (of_char c :: nat) \<and> (of_char c :: nat) \<le> 57)"

definition digit_val :: "char \<Rightarrow> nat" where
  "digit_val c = (of_char c :: nat) - 48"

definition int_of_str :: "string \<Rightarrow> nat" where
  "int_of_str s = foldl (\<lambda>acc c. 10 * acc + digit_val c) 0 s"

section \<open>The four patterns of parse_unified_diff\<close>

text \<open>
  Every line handed to the patterns comes from \<^verbatim>\<open>splitlines\<close>, so it holds no
  line feed: \<^verbatim>\<open>.\<close> matches every character and \<^verbatim>\<open>$\<close> only the end.

  \<^verbatim>\<open>^diff --git a/(.*) b/(.*)$\<close>: the line starts with \<^verbatim>\<open>diff --git a/\<close> and the rest
  holds \<^verbatim>\<open> b/\<close> somewhere. The groups are not used by the caller.
\<close>

definition file_header_match :: "string \<Rightarrow> bool" where
  "file_header_match line =
     (startswith line ''diff --git a/'' \<and> contains_str (drop 13 line) '' b/'')"

text \<open>
  \<^verbatim>\<open>^--- (?:a/)?(.*?)(?:\t.*)?$\<close>: after \<^verbatim>\<open>--- \<close> an \<^verbatim>\<open>a/\<close> is consumed when present
  (the optional group is greedy and the rest always matches); the lazy group then stops
  at the first tab, or at the end of the line when there is none.
\<close>

definition path_group :: "string \<Rightarrow> string \<Rightarrow> string" where
  "path_group pre rest =
     takeWhile (\<lambda>c. c \<noteq> CHR 0x09) (if startswith rest pre then drop (length pre) rest else rest)"

definition old_file_match :: "string \<Rightarrow> string option" where
  "old_file_match line =
     (if startswith line ''--- '' then Some (path_group ''a/'' (drop 4 line)) else None)"

definition new_file_match :: "string \<Rightarrow> string option" where
  "new_file_match line =
     (if startswith line ''+++ '' then Some (path_group ''b/'' (drop 4 line)) else None)"

text \<open>
  \<^verbatim>\<open>^@@ -(\d+)(?:,(\d+))? \+(\d+)(?:,(\d+))? @@\<close>, matched at the start of the line with
  nothing required after the closing \<^verbatim>\<open>@@\<close>. A run of digits is always followed by a
  character that is no digit, so giving digits back never helps and the greedy reading is
  the only one. \<open>count_group\<close> is the optional \<^verbatim>\<open>(?:,(\d+))?\<close>: the captured digits (if
  the group took part) and the rest of the line.
\<close>

definition count_group :: "string \<Rightarrow> string option \<times> string" where
  "count_group s =
     (case s of
        c # r \<Rightarrow>
          if c = CHR '','' \<and> takeWhile is_digit r \<noteq> []
          then (Some (takeWhile is_digit r), dropWhile is_digit r)
          else (None, s)
      | [] \<Rightarrow> (None, s))"

text \<open>\<^verbatim>\<open>int(group or 1)\<close>: an absent group reads as 1.\<close>

definition int_or_1 :: "string option \<Rightarrow> nat" where
  "int_or_1 g = (case g of None \<Rightarrow> 1 | Some ds \<Rightarrow> int_of_str ds)"

definition hunk_header_match :: "string \<Rightarrow> (nat \<times> nat \<times> nat \<times> nat) option" where
  "hunk_header_match line =
     (if \<not> startswith line ''@@ -'' then None
      else let r0 = drop 4 line; g1 = takeWhile is_digit r0; r1 = dropWhile is_digit r0 in
        if g1 = [] then None
        else let (g2, r2) = count_group r1 in
          if \<not> startswith r2 '' +'' then None
          else let r3 = drop 2 r2; g3 = takeWhile is_digit r3; r4 = dropWhile is_digit r3 in
            if g3 = [] then None
            else let (g4, r5) = count_group r4 in
              if \<not> startswith r5 '' @@'' then None
              else Some (int_of_str g1, int_or_1 g2, int_of_str g3, int_or_1 g4))"

section \<open>parse_unified_diff\<close>

text \<open>
  The loop body is \<open>step\<close>, a function of the loop's variables and the line; the loop is
  \<open>foldl step\<close> over the lines.

  \<^verbatim>\<open>current_hunk\<close> is a reference to a hunk object. When it is set it refers to the
  hunk appended last to \<^verbatim>\<open>current_file.hunks\<close> (\<open>Attached\<close>). The \<^verbatim>\<open>+++\<close> branch
  replaces \<^verbatim>\<open>current_file\<close> and leaves \<^verbatim>\<open>current_hunk\<close> as it is: from then on the
  reference points into the replaced file object, which nothing else refers to
  (\<open>Detached\<close>), and lines appended through it reach no file of the result.

  The cursors \<^verbatim>\<open>old_line_num\<close>, \<^verbatim>\<open>new_line_num\<close> are unbound in the source until the
  first hunk header; they are read only while a hunk is current, so the initial 0 of
  the model is never read.
\<close>

datatype hunk_ref = NoHunk | Attached | Detached

record parse_state =
  st_files :: "DiffFile list"
  st_current_file :: "DiffFile option"
  st_current_hunk :: hunk_ref
  st_old_path :: "string option"
  st_new_path :: "string option"
  st_old_line_num :: nat
  st_new_line_num :: nat

definition init_state :: parse_state where
  "init_state = \<lparr>st_files = [], st_current_file = None, st_current_hunk = NoHunk,
                  st_old_path = None, st_new_path = None,
                  st_old_line_num = 0, st_new_line_num = 0\<rparr>"

text \<open>\<^verbatim>\<open>if current_file is not None: files.append(current_file)\<close>\<close>

definition flush_file :: "DiffFile list \<Rightarrow> DiffFile option \<Rightarrow> DiffFile list" where
  "flush_file fs cf = (case cf of None \<Rightarrow> fs | Some f \<Rightarrow> fs @ [f])"

text \<open>\<^verbatim>\<open>current_hunk.lines.append(l)\<close> on the hunk appended last to the file.\<close>

definition append_to_last_hunk :: "DiffLine \<Rightarrow> DiffFile \<Rightarrow> DiffFile" where
  "append_to_last_hunk l f =
     (case rev (hunks f) of
        [] \<Rightarrow> f
      | h # hs \<Rightarrow> f\<lparr>hunks := rev hs @ [h\<lparr>lines := lines h @ [l]\<rparr>]\<rparr>)"

definition append_line :: "DiffLine \<Rightarrow> parse_state \<Rightarrow> parse_state" where
  "append_line l s =
     (case st_current_hunk s of
        Attached \<Rightarrow> s\<lparr>st_current_file := map_option (append_to_last_hunk l) (st_current_file s)\<rparr>
      | _ \<Rightarrow> s)"

text \<open>Lines 115 to 143: a content line while a hunk is current.\<close>

definition content_line :: "parse_state \<Rightarrow> string \<Rightarrow> parse_state" where
  "content_line s line =
     (if st_current_hunk s = NoHunk then s
      else if startswith line ''+'' then
        (append_line \<lparr>content = drop 1 line, line_type = Addition,
                      old_line_num = None, new_line_num = Some (st_new_line_num s)\<rparr> s)
          \<lparr>st_new_line_num := st_new_line_num s + 1\<rparr>
      else if startswith line ''-'' then
        (append_line \<lparr>content = drop 1 line, line_type = Deletion,
                      old_line_num = Some (st_old_line_num s), new_line_num = None\<rparr> s)
          \<lparr>st_old_line_num := st_old_line_num s + 1\<rparr>
      else if startswith line '' '' then
        (append_line \<lparr>content = drop 1 line, line_type = Context,
                      old_line_num = Some (st_old_line_num s),
                      new_line_num = Some (st_new_line_num s)\<rparr> s)
          \<lparr>st_old_line_num := st_old_line_num s + 1,
           st_new_line_num := st_new_line_num s + 1\<rparr>
      else s)"

definition detach :: "hunk_ref \<Rightarrow> hunk_ref" where
  "detach r = (case r of NoHunk \<Rightarrow> NoHunk | _ \<Rightarrow> Detached)"

definition step :: "parse_state \<Rightarrow> string \<Rightarrow> parse_state" where
  "step s line =
     (if file_header_match line then
        s\<lparr>st_files := flush_file (st_files s) (st_current_file s),
          st_old_path := None, st_new_path := None,
          st_current_file := None, st_current_hunk := NoHunk\<rparr>
      else case old_file_match line of
        Some p \<Rightarrow> s\<lparr>st_old_path := Some p\<rparr>
      | None \<Rightarrow>
        (case new_file_match line of
           Some p \<Rightarrow>
             (case st_old_path s of
                Some op \<Rightarrow> s\<lparr>st_new_path := Some p,
                              st_current_file := Some (mk_DiffFile op p),
                              st_current_hunk := detach (st_current_hunk s)\<rparr>
              | None \<Rightarrow> s\<lparr>st_new_path := Some p\<rparr>)
         | None \<Rightarrow>
           (case (hunk_header_match line, st_current_file s) of
              (Some (os, oc, ns, nc), Some f) \<Rightarrow>
                s\<lparr>st_current_file := Some (f\<lparr>hunks := hunks f @ [mk_DiffHunk os oc ns nc]\<rparr>),
                  st_current_hunk := Attached,
                  st_old_line_num := os, st_new_line_num := ns\<rparr>
            | _ \<Rightarrow> content_line s line)))"

definition parse_unified_diff :: "string \<Rightarrow> DiffFile list" where
  "parse_unified_diff diff_text =
     (if diff_text = [] then []
      else let s = foldl step init_state (splitlines diff_text)
           in flush_file (st_files s) (st_current_file s))"

section \<open>generate_file_diff\<close>

text \<open>An integer inside an f-string is printed in base ten without leading zeros.\<close>

definition digit_char :: "nat \<Rightarrow> char" where
  "digit_char d = char_of (48 + d)"

fun str_nat :: "nat \<Rightarrow> string" where
  "str_nat n = (if n < 10 then [digit_char n] else str_nat (n div 10) @ [digit_char (n mod 10)])"

declare str_nat.simps [simp del]

definition hunk_header_line :: "DiffHunk \<Rightarrow> string" where
  "hunk_header_line h =
     ''@@ -'' @ str_nat (old_start h) @ '','' @ str_nat (old_count h) @
     '' +'' @ str_nat (new_start h) @ '','' @ str_nat (new_count h) @ '' @@''"

definition line_prefix :: "line_kind \<Rightarrow> char" where
  "line_prefix k = (if k = Addition then CHR ''+'' else if k = Deletion then CHR ''-'' else CHR '' '')"

definition render_line :: "DiffLine \<Rightarrow> string" where
  "render_line l = line_prefix (line_type l) # content l"

definition hunk_lines :: "DiffHunk \<Rightarrow> string list" where
  "hunk_lines h = hunk_header_line h # map render_line (lines h)"

definition file_lines :: "DiffFile \<Rightarrow> string list" where
  "file_lines f =
     [''--- '' @ old_path f, ''+++ '' @ new_path f] @ concat (map hunk_lines (hunks f))"

text \<open>\<^verbatim>\<open>"\n".join(lines)\<close>\<close>

fun join_nl :: "string list \<Rightarrow> string" where
  "join_nl [] = []"
| "join_nl [x] = x"
| "join_nl (x # y # ys) = x @ [CHR 0x0A] @ join_nl (y # ys)"

definition generate_file_diff :: "DiffFile \<Rightarrow> string" where
  "generate_file_diff f = join_nl (file_lines f)"

text \<open>
  \<^verbatim>\<open>"".join(generate_file_diff(file) + "\n" for file in files)\<close>, the expression that
  renders a list of files (token_counter.py line 113; the chunker builds the same text
  file by file).
\<close>

definition render_all :: "DiffFile list \<Rightarrow> string" where
  "render_all fs = concat (map (\<lambda>f. generate_file_diff f @ [CHR 0x0A]) fs)"

section \<open>get_language_from_path and detect_common_language\<close>

definition ext_map :: "(string \<times> string) list" where
  "ext_map =
     [(''.py'', ''python''), (''.js'', ''javascript''), (''.ts'', ''typescript''),
      (''.jsx'', ''javascript (react)''), (''.tsx'', ''typescript (react)''),
      (''.java'', ''java''), (''.c'', ''c''), (''.cpp'', ''c++''), (''.h'', ''c/c++ header''),
      (''.cs'', ''c#''), (''.go'', ''go''), (''.rb'', ''ruby''), (''.php'', ''php''),
      (''.swift'', ''swift''), (''.kt'', ''kotlin''), (''.rs'', ''rust''), (''.sh'', ''shell''),
      (''.html'', ''html''), (''.css'', ''css''), (''.scss'', ''scss''), (''.json'', ''json''),
      (''.md'', ''markdown''), (''.xml'', ''xml''), (''.yaml'', ''yaml''), (''.yml'', ''yaml''),
      (''.sql'', ''sql''), (''.tf'', ''terraform''), (''.dockerfile'', ''dockerfile'')]"

text \<open>
  \<^verbatim>\<open>str.lower\<close> on code points below 256: the ASCII capitals and the Latin-1 capitals
  (0xC0 to 0xDE without the multiplication sign 0xD7) move up by 32.
\<close>

definition lower_char :: "char \<Rightarrow> char" where
  "lower_char c =
     (let n = (of_char c :: nat) in
      if (65 \<le> n \<and> n \<le> 90) \<or> (192 \<le> n \<and> n \<le> 222 \<and> n \<noteq> 215) then char_of (n + 32) else c)"

definition lower :: "string \<Rightarrow> string" where
  "lower s = map lower_char s"

text \<open>The second component of \<^verbatim>\<open>s.rsplit('.', 1)\<close> when \<open>s\<close> holds a dot.\<close>

definition after_last_dot :: "string \<Rightarrow> string" where
  "after_last_dot s = rev (takeWhile (\<lambda>c. c \<noteq> CHR ''.'') (rev s))"

definition get_language_from_path :: "string \<Rightarrow> string option" where
  "get_language_from_path file_path =
     (let ext = (if CHR ''.'' \<in> set file_path then after_last_dot (lower file_path) else []);
          ext = CHR ''.'' # ext
      in if lower file_path = ''dockerfile'' then Some ''dockerfile''
         else map_of ext_map ext)"

text \<open>
  A Python dict keeps its keys in the order of first insertion, and assigning to a key
  that is present keeps its place: an association list updated in place.
\<close>

fun dict_set :: "('k \<times> 'v) list \<Rightarrow> 'k \<Rightarrow> 'v \<Rightarrow> ('k \<times> 'v) list" where
  "dict_set [] k v = [(k, v)]"
| "dict_set ((k', v') # d) k v = (if k' = k then (k, v) # d else (k', v') # dict_set d k v)"

definition dict_get :: "('k \<times> nat) list \<Rightarrow> 'k \<Rightarrow> nat \<Rightarrow> nat" where
  "dict_get d k dflt = (case map_of d k of None \<Rightarrow> dflt | Some v \<Rightarrow> v)"

text \<open>\<^verbatim>\<open>if lang: languages[lang] = languages.get(lang, 0) + 1\<close>\<close>

definition count_language :: "(string \<times> nat) list \<Rightarrow> string \<Rightarrow> (string \<times> nat) list" where
  "count_language languages path =
     (case get_language_from_path path of
        None \<Rightarrow> languages
      | Some lang \<Rightarrow> if lang = [] then languages
                     else dict_set languages lang (dict_get languages lang 0 + 1))"

text \<open>
  \<^verbatim>\<open>max(items, key=lambda x: x[1])\<close>: the first item is the candidate, and a later item
  replaces it only when its key is strictly greater.
\<close>

fun max_from :: "('k \<times> nat) \<Rightarrow> ('k \<times> nat) list \<Rightarrow> ('k \<times> nat)" where
  "max_from best [] = best"
| "max_from best (x # xs) = max_from (if snd best < snd x then x else best) xs"

definition detect_common_language :: "string list \<Rightarrow> string option" where
  "detect_common_language file_paths =
     (if file_paths = [] then None
      else case foldl count_language [] file_paths of
        [] \<Rightarrow> None
      | item # items \<Rightarrow> Some (fst (max_from item items)))"

section \<open>chunk_diff_by_files\<close>

record chunk =
  diff :: string
  files :: "string list"
  language :: "string option"

record chunk_state =
  cs_chunks :: "chunk list"
  cs_current_chunk :: string
  cs_current_files :: "string list"

definition close_chunk :: "chunk_state \<Rightarrow> chunk list" where
  "close_chunk s =
     cs_chunks s @ [\<lparr>diff = cs_current_chunk s, files = cs_current_files s,
                     language = detect_common_language (cs_current_files s)\<rparr>]"

definition chunk_step :: "int \<Rightarrow> chunk_state \<Rightarrow> DiffFile \<Rightarrow> chunk_state" where
  "chunk_step max_chunk_size s file =
     (let file_diff = generate_file_diff file;
          s' = (if int (length (cs_current_chunk s)) + int (length file_diff) > max_chunk_size
                   \<and> cs_current_chunk s \<noteq> []
                then \<lparr>cs_chunks = close_chunk s, cs_current_chunk = [], cs_current_files = []\<rparr>
                else s)
      in s'\<lparr>cs_current_chunk := cs_current_chunk s' @ file_diff @ [CHR 0x0A],
            cs_current_files := cs_current_files s' @ [get_path file]\<rparr>)"

definition chunk_diff_by_files :: "string \<Rightarrow> int \<Rightarrow> chunk list" where
  "chunk_diff_by_files diff_text max_chunk_size =
     (let s = foldl (chunk_step max_chunk_size)
                \<lparr>cs_chunks = [], cs_current_chunk = [], cs_current_files = []\<rparr>
                (parse_unified_diff diff_text)
      in if cs_current_chunk s \<noteq> [] then close_chunk s else cs_chunks s)"

section \<open>optimize_diff_context (token_counter.py)\<close>

subsection \<open>Strategy 1: context thinning\<close>

text \<open>
  A block is the dict \<^verbatim>\<open>{"type": ..., "lines": [...]}\<close>; the type of the initial block
  is \<^verbatim>\<open>None\<close>.
\<close>

record block =
  b_type :: "line_kind option"
  b_lines :: "DiffLine list"

text \<open>Lines 77 to 84: the loop over the lines of a hunk, on (context_blocks, current_block).\<close>

definition block_step :: "block list \<times> block \<Rightarrow> DiffLine \<Rightarrow> block list \<times> block" where
  "block_step st line =
     (let (context_blocks, current_block) = st in
      if Some (line_type line) \<noteq> b_type current_block then
        ((if b_lines current_block \<noteq> [] then context_blocks @ [current_block] else context_blocks),
         \<lparr>b_type = Some (line_type line), b_lines = [line]\<rparr>)
      else (context_blocks, current_block\<lparr>b_lines := b_lines current_block @ [line]\<rparr>))"

definition context_blocks_of :: "DiffLine list \<Rightarrow> block list" where
  "context_blocks_of ls =
     (let (context_blocks, current_block) = foldl block_step ([], \<lparr>b_type = None, b_lines = []\<rparr>) ls
      in if b_lines current_block \<noteq> [] then context_blocks @ [current_block] else context_blocks)"

text \<open>
  Lines 91 to 105: what block \<open>i\<close> of \<open>n\<close> blocks adds to \<^verbatim>\<open>essential_lines\<close>.
  \<^verbatim>\<open>i == len(context_blocks) - 1\<close> is written \<open>i + 1 = n\<close>.
\<close>

definition keep_lines :: "nat \<Rightarrow> nat \<Rightarrow> block \<Rightarrow> DiffLine list" where
  "keep_lines n i b =
     (if b_type b = Some Addition \<or> b_type b = Some Deletion then b_lines b
      else if b_type b = Some Context then
        (if i = 0 \<or> i + 1 = n then take (min 2 (length (b_lines b))) (b_lines b)
         else if length (b_lines b) \<le> 2 then b_lines b
         else [hd (b_lines b), last (b_lines b)])
      else [])"

definition essential_lines :: "DiffLine list \<Rightarrow> DiffLine list" where
  "essential_lines ls =
     (let context_blocks = context_blocks_of ls
      in concat (map (\<lambda>(i, b). keep_lines (length context_blocks) i b)
                     (enumerate 0 context_blocks)))"

subsection \<open>The names optimize_diff_context uses and the module's namespace\<close>

text \<open>
  A Python function looks a global name up in the namespace of its module when the
  statement that uses the name runs; a name with no binding there (and none among the
  builtins) raises \<^verbatim>\<open>NameError\<close>. optimize_diff_context uses four names that its own
  body does not bind: \<^verbatim>\<open>parse_unified_diff\<close> (line 55), \<^verbatim>\<open>DiffFile\<close> (line 67),
  \<^verbatim>\<open>DiffHunk\<close> (line 70) and \<^verbatim>\<open>generate_file_diff\<close> (lines 113 and 139). The
  namespace is a parameter of the model: a record of what each of the four names is
  bound to, if anything; in the definitions the value found is called \<open>parse\<close>,
  \<open>make_file\<close>, \<open>make_hunk\<close> and \<open>render\<close>.

  token_counter.py binds \<^verbatim>\<open>tiktoken\<close>, \<^verbatim>\<open>Dict\<close>, \<^verbatim>\<open>List\<close>, \<^verbatim>\<open>Optional\<close>,
  \<^verbatim>\<open>Tuple\<close>, \<^verbatim>\<open>DEFAULT_MODELS\<close>, \<^verbatim>\<open>MODEL_TO_ENCODING\<close>, \<^verbatim>\<open>count_tokens\<close> and
  \<^verbatim>\<open>optimize_diff_context\<close>, and nothing else; no module of the repository imports
  token_counter or assigns to its namespace. \<open>token_counter_globals\<close> is that namespace:
  none of the four names is bound.
\<close>

datatype py_error = NameError string

record namespace =
  ns_parse_unified_diff :: "(string \<Rightarrow> DiffFile list) option"
  ns_DiffFile :: "(string \<Rightarrow> string \<Rightarrow> DiffFile) option"
  ns_DiffHunk :: "(nat \<Rightarrow> nat \<Rightarrow> nat \<Rightarrow> nat \<Rightarrow> DiffHunk) option"
  ns_generate_file_diff :: "(DiffFile \<Rightarrow> string) option"

definition token_counter_globals :: namespace where
  "token_counter_globals =
     \<lparr>ns_parse_unified_diff = None, ns_DiffFile = None, ns_DiffHunk = None,
      ns_generate_file_diff = None\<rparr>"

definition load_global :: "string \<Rightarrow> 'a option \<Rightarrow> py_error + 'a" where
  "load_global name binding = (case binding of None \<Rightarrow> Inl (NameError name) | Some v \<Rightarrow> Inr v)"

text \<open>Sequencing: an exception ends the function; a loop stops at the first exception.\<close>

definition and_then :: "py_error + 'a \<Rightarrow> ('a \<Rightarrow> py_error + 'b) \<Rightarrow> py_error + 'b" where
  "and_then r k = (case r of Inl e \<Rightarrow> Inl e | Inr v \<Rightarrow> k v)"

fun for_each :: "('a \<Rightarrow> py_error + 'b) \<Rightarrow> 'a list \<Rightarrow> py_error + 'b list" where
  "for_each body [] = Inr []"
| "for_each body (x # xs) =
     and_then (body x) (\<lambda>y. and_then (for_each body xs) (\<lambda>ys. Inr (y # ys)))"

text \<open>
  Lines 69 to 108, the body of the loop over the hunks of a file: \<^verbatim>\<open>DiffHunk(...)\<close> at
  line 70, then the thinned lines are assigned to \<^verbatim>\<open>reduced_hunk.lines\<close>.
\<close>

definition reduce_hunk :: "namespace \<Rightarrow> DiffHunk \<Rightarrow> py_error + DiffHunk" where
  "reduce_hunk ns hunk =
     and_then (load_global ''DiffHunk'' (ns_DiffHunk ns)) (\<lambda>make_hunk.
       Inr ((make_hunk (old_start hunk) (old_count hunk) (new_start hunk) (new_count hunk))
              \<lparr>lines := essential_lines (lines hunk)\<rparr>))"

text \<open>
  Lines 66 to 110, the body of the loop over the files: \<^verbatim>\<open>DiffFile(...)\<close> at line 67,
  then each reduced hunk is appended to \<^verbatim>\<open>reduced_file.hunks\<close>.
\<close>

definition reduce_file :: "namespace \<Rightarrow> DiffFile \<Rightarrow> py_error + DiffFile" where
  "reduce_file ns file =
     and_then (load_global ''DiffFile'' (ns_DiffFile ns)) (\<lambda>make_file.
       let reduced_file = make_file (old_path file) (new_path file) in
       and_then (for_each (reduce_hunk ns) (hunks file)) (\<lambda>reduced_hunks.
         Inr (reduced_file\<lparr>hunks := hunks reduced_file @ reduced_hunks\<rparr>)))"

text \<open>
  Line 113: \<^verbatim>\<open>"".join(generate_file_diff(file) + "\n" for file in reduced_context_files)\<close>;
  the name is looked up once for every file.
\<close>

definition render_reduced :: "namespace \<Rightarrow> DiffFile list \<Rightarrow> py_error + string" where
  "render_reduced ns reduced_context_files =
     and_then
       (for_each (\<lambda>file. and_then (load_global ''generate_file_diff'' (ns_generate_file_diff ns))
                     (\<lambda>render. Inr (render file @ [CHR 0x0A])))
          reduced_context_files)
       (\<lambda>parts. Inr (concat parts))"

subsection \<open>Strategy 2: the most relevant files\<close>

definition is_change :: "DiffLine \<Rightarrow> bool" where
  "is_change l = (line_type l = Addition \<or> line_type l = Deletion)"

definition change_count :: "DiffFile \<Rightarrow> nat" where
  "change_count file = length (filter is_change (concat (map lines (hunks file))))"

text \<open>
  \<^verbatim>\<open>file_relevance.sort(key=lambda x: x[1], reverse=True)\<close>: a stable sort by
  descending key, that is a stable ascending sort by the negated key.
\<close>

definition sort_relevance :: "(DiffFile \<times> nat) list \<Rightarrow> (DiffFile \<times> nat) list" where
  "sort_relevance file_relevance = sort_key (\<lambda>x. - int (snd x)) file_relevance"

definition ranked_files :: "DiffFile list \<Rightarrow> DiffFile list" where
  "ranked_files reduced_context_files =
     map fst (sort_relevance (map (\<lambda>file. (file, change_count file)) reduced_context_files))"

text \<open>
  Lines 135 to 140, the last statements of the function: \<^verbatim>\<open>final_files = []\<close>,
  \<^verbatim>\<open>current_tokens = 0\<close>, and a loop over the ranked files whose body computes
  \<^verbatim>\<open>file_diff\<close> and \<^verbatim>\<open>file_tokens\<close> and does nothing with them. No \<^verbatim>\<open>return\<close>
  follows, so the function returns \<^verbatim>\<open>None\<close>: the result \<open>None\<close> of the model.
\<close>

definition last_loop :: "namespace \<Rightarrow> (string \<Rightarrow> int) \<Rightarrow> DiffFile list \<Rightarrow> py_error + string option" where
  "last_loop ns count_tokens ranked =
     and_then
       (for_each (\<lambda>file. and_then (load_global ''generate_file_diff'' (ns_generate_file_diff ns))
                     (\<lambda>render.
                        let file_diff = render file;
                            file_tokens = count_tokens file_diff
                        in Inr file_tokens))
          ranked)
       (\<lambda>_. Inr None)"

subsection \<open>optimize_diff_context\<close>

text \<open>
  \<^verbatim>\<open>count_tokens(text, model)\<close> is bound in the module; it calls the tiktoken library,
  which is not part of the repository, and catches every exception, so it is a parameter
  of the model: a function from strings to integers (with the model fixed).

  The result is \<open>Inl\<close> of the exception raised, or \<open>Inr\<close> of the value returned:
  \<open>Some\<close> of a string, or \<open>None\<close> for Python's \<^verbatim>\<open>None\<close>.
\<close>

definition optimize_diff_context ::
  "namespace \<Rightarrow> (string \<Rightarrow> int) \<Rightarrow> string \<Rightarrow> int \<Rightarrow> py_error + string option" where
  "optimize_diff_context ns count_tokens diff_text max_tokens =
     and_then (load_global ''parse_unified_diff'' (ns_parse_unified_diff ns)) (\<lambda>parse.
       let files = parse diff_text;
           current_tokens = count_tokens diff_text
       in if current_tokens \<le> max_tokens then Inr (Some diff_text)
          else and_then (for_each (reduce_file ns) files) (\<lambda>reduced_context_files.
               and_then (render_reduced ns reduced_context_files) (\<lambda>reduced_diff.
                 let reduced_tokens = count_tokens reduced_diff
                 in if reduced_tokens \<le> max_tokens then Inr (Some reduced_diff)
                    else last_loop ns count_tokens (ranked_files reduced_context_files))))"

section \<open>Properties of the parser: definitions\<close>

text \<open>
  The replay of the specification's data model: an old-line cursor and a new-line cursor
  run over the lines of a hunk; a Context or Deletion line carries the old cursor and
  moves it on, a Context or Addition line carries the new cursor and moves it on, and the
  other field is absent.
\<close>

fun replays_exactly :: "nat \<Rightarrow> nat \<Rightarrow> DiffLine list \<Rightarrow> bool" where
  "replays_exactly oc nc [] = True"
| "replays_exactly oc nc (l # ls) =
     (old_line_num l = (if line_type l = Addition then None else Some oc) \<and>
      new_line_num l = (if line_type l = Deletion then None else Some nc) \<and>
      replays_exactly (if line_type l = Addition then oc else oc + 1)
                      (if line_type l = Deletion then nc else nc + 1) ls)"

definition fields_by_kind :: "DiffLine \<Rightarrow> bool" where
  "fields_by_kind l =
     (case line_type l of
        Addition \<Rightarrow> old_line_num l = None \<and> new_line_num l \<noteq> None
      | Deletion \<Rightarrow> old_line_num l \<noteq> None \<and> new_line_num l = None
      | Context \<Rightarrow> old_line_num l \<noteq> None \<and> new_line_num l \<noteq> None)"

text \<open>Where the two cursors stand after the lines \<open>ls\<close>.\<close>

definition old_cursor :: "nat \<Rightarrow> DiffLine list \<Rightarrow> nat" where
  "old_cursor oc ls = oc + length (filter (\<lambda>l. line_type l \<noteq> Addition) ls)"

definition new_cursor :: "nat \<Rightarrow> DiffLine list \<Rightarrow> nat" where
  "new_cursor nc ls = nc + length (filter (\<lambda>l. line_type l \<noteq> Deletion) ls)"

definition hunk_ok :: "DiffHunk \<Rightarrow> bool" where
  "hunk_ok h = replays_exactly (old_start h) (new_start h) (lines h)"

definition file_ok :: "DiffFile \<Rightarrow> bool" where
  "file_ok f = list_all hunk_ok (hunks f)"

text \<open>
  The loop invariant of the parser for the line numbers: while the current hunk is the
  last hunk of the current file, the cursors stand where the replay of its lines ends.
\<close>

definition cursors_ok :: "parse_state \<Rightarrow> bool" where
  "cursors_ok s =
     (st_current_hunk s = Attached \<longrightarrow>
        (case st_current_file s of
           None \<Rightarrow> False
         | Some f \<Rightarrow> hunks f \<noteq> [] \<and>
             st_old_line_num s = old_cursor (old_start (last (hunks f))) (lines (last (hunks f))) \<and>
             st_new_line_num s = new_cursor (new_start (last (hunks f))) (lines (last (hunks f)))))"

definition state_ok :: "parse_state \<Rightarrow> bool" where
  "state_ok s =
     (list_all file_ok (st_files s) \<and> list_all file_ok (flush_file [] (st_current_file s)) \<and>
      cursors_ok s)"

text \<open>Example inputs.\<close>

definition example_diff :: string where
  "example_diff =
     ''diff --git a/x.py b/x.py'' @ [CHR 0x0A] @ ''--- a/x.py'' @ [CHR 0x0A] @
     ''+++ b/x.py'' @ [CHR 0x0A] @ ''@@ -1,2 +1,3 @@'' @ [CHR 0x0A] @
     '' a'' @ [CHR 0x0A] @ ''+b'' @ [CHR 0x0A] @ '' c'' @ [CHR 0x0A]"

definition example_hunk :: DiffHunk where
  "example_hunk =
     \<lparr>old_start = 1, old_count = 2, new_start = 1, new_count = 3,
      lines = [\<lparr>content = ''a'', line_type = Context, old_line_num = Some 1, new_line_num = Some 1\<rparr>,
               \<lparr>content = ''b'', line_type = Addition, old_line_num = None, new_line_num = Some 2\<rparr>,
               \<lparr>content = ''c'', line_type = Context, old_line_num = Some 2, new_line_num = Some 3\<rparr>]\<rparr>"

definition example_file :: DiffFile where
  "example_file = \<lparr>old_path = ''x.py'', new_path = ''x.py'', hunks = [example_hunk]\<rparr>"

text \<open>
  The lines of a first file section with one hunk (no \<^verbatim>\<open>diff --git\<close> line), and the
  file that is current after them.
\<close>

definition two_pairs_prefix :: "string list" where
  "two_pairs_prefix = [''--- a/x.py'', ''+++ b/x.py'', ''@@ -1 +1 @@'', ''-u'', ''+v'']"

definition two_pairs_first :: DiffFile where
  "two_pairs_first =
     \<lparr>old_path = ''x.py'', new_path = ''x.py'',
      hunks = [\<lparr>old_start = 1, old_count = 1, new_start = 1, new_count = 1,
                lines = [\<lparr>content = ''u'', line_type = Deletion,
                           old_line_num = Some 1, new_line_num = None\<rparr>,
                         \<lparr>content = ''v'', line_type = Addition,
                           old_line_num = None, new_line_num = Some 1\<rparr>]\<rparr>]\<rparr>"

section \<open>Properties of context thinning: definitions\<close>

text \<open>
  A run: a block that is not empty and whose lines all have the block's kind. A list of
  blocks is the partition of \<open>ls\<close> into maximal runs when the blocks are runs, their
  lines in order are \<open>ls\<close>, and neighbouring blocks have different kinds.
\<close>

definition block_wf :: "block \<Rightarrow> bool" where
  "block_wf b = (b_lines b \<noteq> [] \<and> list_all (\<lambda>l. Some (line_type l) = b_type b) (b_lines b))"

definition maximal_runs :: "DiffLine list \<Rightarrow> block list \<Rightarrow> bool" where
  "maximal_runs ls bs =
     (concat (map b_lines bs) = ls \<and> list_all block_wf bs \<and> distinct_adj (map b_type bs))"

text \<open>
  The specification's rule for one run, by its position in the run sequence (\<open>edge\<close>: the
  run is the first or the last one): a context run at the edge keeps at most its first
  two lines, an interior context run with more than two lines keeps its first and its
  last line, every other run is kept as it is.
\<close>

definition thinned_run :: "bool \<Rightarrow> block \<Rightarrow> DiffLine list" where
  "thinned_run edge b =
     (if b_type b = Some Context then
        (if edge then take 2 (b_lines b)
         else if 2 < length (b_lines b) then [hd (b_lines b), last (b_lines b)]
         else b_lines b)
      else b_lines b)"

text \<open>The invariant of the loop that builds the blocks, after the lines \<open>ls\<close>.\<close>

definition blocks_inv :: "DiffLine list \<Rightarrow> block list \<times> block \<Rightarrow> bool" where
  "blocks_inv ls st =
     (let (bs, cur) = st in
      concat (map b_lines bs) @ b_lines cur = ls \<and> list_all block_wf bs \<and>
      (if b_lines cur = [] then bs = [] \<and> b_type cur = None else block_wf cur) \<and>
      distinct_adj (map b_type bs @ [b_type cur]))"

text \<open>An example hunk: three context runs (of 3, 3 and 3 lines) around an addition and a deletion.\<close>

definition ctx_line :: "string \<Rightarrow> nat \<Rightarrow> nat \<Rightarrow> DiffLine" where
  "ctx_line c on nn = \<lparr>content = c, line_type = Context, old_line_num = Some on, new_line_num = Some nn\<rparr>"

definition add_line :: "string \<Rightarrow> nat \<Rightarrow> DiffLine" where
  "add_line c nn = \<lparr>content = c, line_type = Addition, old_line_num = None, new_line_num = Some nn\<rparr>"

definition del_line :: "string \<Rightarrow> nat \<Rightarrow> DiffLine" where
  "del_line c on = \<lparr>content = c, line_type = Deletion, old_line_num = Some on, new_line_num = None\<rparr>"

definition thin_example_lines :: "DiffLine list" where
  "thin_example_lines =
     [ctx_line ''c1'' 1 1, ctx_line ''c2'' 2 2, ctx_line ''c3'' 3 3, add_line ''a1'' 4,
      ctx_line ''c4'' 4 5, ctx_line ''c5'' 5 6, ctx_line ''c6'' 6 7, del_line ''d1'' 7,
      ctx_line ''c7'' 8 8, ctx_line ''c8'' 9 9, ctx_line ''c9'' 10 10]"



section \<open>Properties of the chunker and the optimizer: definitions\<close>

text \<open>
  The effective path of a file in the words of the specification's data model: the new
  path unless the file is deleted (its new path is \<^verbatim>\<open>/dev/null\<close>), else the old path.
\<close>

definition effective_path :: "DiffFile \<Rightarrow> string" where
  "effective_path f = (if new_path f = ''/dev/null'' then old_path f else new_path f)"

text \<open>
  The chunk made of a group of whole files: their renders, each followed by a newline,
  their effective paths, and the common language of those paths.
\<close>

definition chunk_of :: "DiffFile list \<Rightarrow> chunk" where
  "chunk_of g = \<lparr>diff = render_all g, files = map effective_path g,
                 language = detect_common_language (map effective_path g)\<rparr>"

text \<open>
  The invariant of the chunker's loop: the closed chunks are the chunks of the groups
  \<open>gs\<close>, the buffer holds the files \<open>cur\<close>, no closed group is empty, and a file whose
  render is longer than the limit is alone in its group.
\<close>

definition chunk_inv :: "int \<Rightarrow> DiffFile list list \<Rightarrow> DiffFile list \<Rightarrow> chunk_state \<Rightarrow> bool" where
  "chunk_inv m gs cur s =
     (cs_chunks s = map chunk_of gs \<and> cs_current_chunk s = render_all cur \<and>
      cs_current_files s = map get_path cur \<and> (\<forall>g \<in> set gs. g \<noteq> []) \<and>
      (\<forall>g \<in> set (cur # gs). \<forall>f \<in> set g. m < int (length (generate_file_diff f)) \<longrightarrow> g = [f]))"

text \<open>A diff of two files, and the second file as the parser returns it.\<close>

definition two_files_diff :: string where
  "two_files_diff =
     example_diff @
     ''diff --git a/y.py b/y.py'' @ [CHR 0x0A] @ ''--- a/y.py'' @ [CHR 0x0A] @
     ''+++ b/y.py'' @ [CHR 0x0A] @ ''@@ -1 +1 @@'' @ [CHR 0x0A] @
     ''-u'' @ [CHR 0x0A] @ ''+v'' @ [CHR 0x0A]"

definition second_file :: DiffFile where
  "second_file =
     \<lparr>old_path = ''y.py'', new_path = ''y.py'',
      hunks = [\<lparr>old_start = 1, old_count = 1, new_start = 1, new_count = 1,
                lines = [del_line ''u'' 1, add_line ''v'' 1]\<rparr>]\<rparr>"

text \<open>A diff that changes one file and deletes another, and the deleted file as parsed.\<close>

definition deletion_diff :: string where
  "deletion_diff =
     example_diff @
     ''diff --git a/old.py b/old.py'' @ [CHR 0x0A] @ ''--- a/old.py'' @ [CHR 0x0A] @
     ''+++ /dev/null'' @ [CHR 0x0A] @ ''@@ -1 +0,0 @@'' @ [CHR 0x0A] @ ''-u'' @ [CHR 0x0A]"

definition deleted_file :: DiffFile where
  "deleted_file =
     \<lparr>old_path = ''old.py'', new_path = ''/dev/null'',
      hunks = [\<lparr>old_start = 1, old_count = 1, new_start = 0, new_count = 0,
                lines = [del_line ''u'' 1]\<rparr>]\<rparr>"

text \<open>A token counter for the examples: the number of characters.\<close>

definition count_chars :: "string \<Rightarrow> int" where
  "count_chars s = int (length s)"

section \<open>Properties of language detection: definitions\<close>

text \<open>The per-path detection results, in the order of the paths.\<close>

definition detected_languages :: "string list \<Rightarrow> string list" where
  "detected_languages file_paths = List.map_filter get_language_from_path file_paths"

text \<open>
  The specification's choice: scanning the detection results in order, the first language
  whose number of occurrences no other language exceeds.
\<close>

definition most_common_first :: "string list \<Rightarrow> string option" where
  "most_common_first langs =
     find (\<lambda>l. \<forall>l' \<in> set langs. count_list langs l' \<le> count_list langs l) langs"

text \<open>The elements of a list in the order of their first occurrences.\<close>

primrec first_occurrences :: "'a list \<Rightarrow> 'a list" where
  "first_occurrences [] = []"
| "first_occurrences (x # xs) = x # filter (\<lambda>y. y \<noteq> x) (first_occurrences xs)"

text \<open>The dict update of detect_common_language for a detected language.\<close>

definition tally_step :: "(string \<times> nat) list \<Rightarrow> string \<Rightarrow> (string \<times> nat) list" where
  "tally_step d lang = dict_set d lang (dict_get d lang 0 + 1)"

text \<open>
  The namespace that token_counter.py would have after importing the four names from
  diff_parser.py. The module has no such import; this namespace only shows what the
  body of optimize_diff_context computes once its names resolve.
\<close>

definition imported_globals :: namespace where
  "imported_globals =
     \<lparr>ns_parse_unified_diff = Some parse_unified_diff, ns_DiffFile = Some mk_DiffFile,
      ns_DiffHunk = Some mk_DiffHunk, ns_generate_file_diff = Some generate_file_diff\<rparr>"

section \<open>Properties of re-parsing a rendered diff: definitions\<close>

text \<open>What the parser guarantees about the strings it stores.\<close>

definition no_break :: "string \<Rightarrow> bool" where
  "no_break s = list_all (\<lambda>c. \<not> is_linebreak c) s"

definition path_ok :: "string \<Rightarrow> bool" where
  "path_ok p = (no_break p \<and> CHR 0x09 \<notin> set p)"

definition line_wf :: "DiffLine \<Rightarrow> bool" where
  "line_wf l =
     (no_break (content l) \<and>
      (line_type l = Addition \<longrightarrow> \<not> startswith (content l) ''++ '') \<and>
      (line_type l = Deletion \<longrightarrow> \<not> startswith (content l) ''-- ''))"

definition hunk_wf :: "DiffHunk \<Rightarrow> bool" where
  "hunk_wf h = list_all line_wf (lines h)"

definition file_wf :: "DiffFile \<Rightarrow> bool" where
  "file_wf f = (path_ok (old_path f) \<and> path_ok (new_path f) \<and> list_all hunk_wf (hunks f))"

definition state_wf :: "parse_state \<Rightarrow> bool" where
  "state_wf s =
     (list_all file_wf (st_files s) \<and> list_all file_wf (flush_file [] (st_current_file s)) \<and>
      (case st_old_path s of None \<Rightarrow> True | Some p \<Rightarrow> path_ok p))"

text \<open>
  A path as the parser reads it back from a rendered header line: the optional prefix of
  the pattern is removed once more.
\<close>

definition strip_prefix :: "string \<Rightarrow> string \<Rightarrow> string" where
  "strip_prefix pre p = (if startswith p pre then drop (length pre) p else p)"

definition reparsed_paths :: "DiffFile \<Rightarrow> DiffFile" where
  "reparsed_paths f =
     f\<lparr>old_path := strip_prefix ''a/'' (old_path f), new_path := strip_prefix ''b/'' (new_path f)\<rparr>"

text \<open>The text of a list of lines, each followed by a line feed.\<close>

definition unlines :: "string list \<Rightarrow> string" where
  "unlines ls = concat (map (\<lambda>l. l @ [CHR 0x0A]) ls)"

section \<open>Facts about the string primitives\<close>

lemma startswith_Nil: "startswith s []"
  by (simp add: startswith_def)

lemma startswith_Cons:
  "startswith s (c # p) = (case s of [] \<Rightarrow> False | d # t \<Rightarrow> d = c \<and> startswith t p)"
  by (simp add: startswith_def split: list.splits)

lemma startswith_append: "startswith (p @ s) p"
  by (simp add: startswith_def)

lemma startswith_eq: "startswith s p \<Longrightarrow> s = p @ drop (length p) s"
  by (metis append_take_drop_id startswith_def)

section \<open>Line numbers of parsed hunks\<close>

lemma replays_exactly_snoc:
  "replays_exactly oc nc (ls @ [l]) =
     (replays_exactly oc nc ls \<and>
      old_line_num l = (if line_type l = Addition then None else Some (old_cursor oc ls)) \<and>
      new_line_num l = (if line_type l = Deletion then None else Some (new_cursor nc ls)))"
  by (induction ls arbitrary: oc nc) (auto simp: old_cursor_def new_cursor_def)

lemma replays_exactly_fields:
  "replays_exactly oc nc ls \<Longrightarrow> l \<in> set ls \<Longrightarrow> fields_by_kind l"
  by (induction ls arbitrary: oc nc) (auto simp: fields_by_kind_def split: line_kind.splits if_splits)

lemma state_ok_init: "state_ok init_state"
  by (simp add: state_ok_def init_state_def flush_file_def cursors_ok_def)

lemma hunks_append_to_last:
  "hunks f = hs @ [h] \<Longrightarrow> hunks (append_to_last_hunk l f) = hs @ [h\<lparr>lines := lines h @ [l]\<rparr>]"
  by (simp add: append_to_last_hunk_def)

lemma state_ok_content_line: "state_ok s \<Longrightarrow> state_ok (content_line s line)"
proof -
  assume ok: "state_ok s"
  show ?thesis
  proof (cases "st_current_hunk s")
    case NoHunk
    then show ?thesis using ok by (simp add: content_line_def)
  next
    case Detached
    then show ?thesis using ok
      by (simp add: content_line_def append_line_def state_ok_def cursors_ok_def)
  next
    case Attached
    with ok obtain f where f: "st_current_file s = Some f" "hunks f \<noteq> []"
      and oc: "st_old_line_num s = old_cursor (old_start (last (hunks f))) (lines (last (hunks f)))"
      and nc: "st_new_line_num s = new_cursor (new_start (last (hunks f))) (lines (last (hunks f)))"
      by (auto simp: state_ok_def cursors_ok_def split: option.splits)
    from f(2) obtain hs h where hs: "hunks f = hs @ [h]"
      by (metis rev_exhaust)
    from ok f hs have hok: "list_all hunk_ok hs" "hunk_ok h"
      by (auto simp: state_ok_def flush_file_def file_ok_def)
    from ok have fs: "list_all file_ok (st_files s)" by (simp add: state_ok_def)
    show ?thesis
      using Attached f hs hok fs oc nc
      by (auto simp: content_line_def append_line_def state_ok_def cursors_ok_def flush_file_def
          file_ok_def hunks_append_to_last hunk_ok_def replays_exactly_snoc
          old_cursor_def new_cursor_def)
  qed
qed

lemma state_ok_step: "state_ok s \<Longrightarrow> state_ok (step s line)"
  unfolding step_def
  by (auto simp: state_ok_content_line split: option.splits prod.splits)
   (auto simp: state_ok_def flush_file_def cursors_ok_def file_ok_def mk_DiffFile_def
        mk_DiffHunk_def hunk_ok_def old_cursor_def new_cursor_def detach_def
        split: option.splits hunk_ref.splits)

lemma state_ok_foldl: "state_ok s \<Longrightarrow> state_ok (foldl step s ls)"
  by (induction ls arbitrary: s) (auto simp: state_ok_step)

lemma parse_files_ok: "list_all file_ok (parse_unified_diff d)"
proof (cases "d = []")
  case True
  then show ?thesis by (simp add: parse_unified_diff_def)
next
  case False
  have "state_ok (foldl step init_state (splitlines d))"
    by (rule state_ok_foldl [OF state_ok_init])
  then show ?thesis using False
    by (auto simp: parse_unified_diff_def Let_def state_ok_def flush_file_def split: option.splits)
qed

lemma parse_example_diff: "parse_unified_diff example_diff = [example_file]"
  by code_simp

text \<open>
  Claim C4. For every input and every hunk of every file that parse_unified_diff returns,
  replaying the hunk's lines with an old cursor from \<open>old_start\<close> and a new cursor from
  \<open>new_start\<close> (old cursor moved by Context and Deletion lines, new cursor by Context and
  Addition lines) gives exactly the recorded line numbers; and which number is absent
  depends on the kind alone: the old one for an Addition, the new one for a Deletion,
  none for a Context line.
\<close>

theorem parse_line_numbers_replay:
  "f \<in> set (parse_unified_diff d) \<Longrightarrow> h \<in> set (hunks f) \<Longrightarrow>
     replays_exactly (old_start h) (new_start h) (lines h) \<and>
     (\<forall>l \<in> set (lines h). fields_by_kind l)"
  using parse_files_ok [of d]
  by (auto simp: list_all_iff file_ok_def hunk_ok_def intro: replays_exactly_fields)

theorem parse_line_numbers_replay_witness:
  "example_file \<in> set (parse_unified_diff example_diff) \<and>
   example_hunk \<in> set (hunks example_file) \<and>
   replays_exactly 1 1 (lines example_hunk) \<and>
   list_all fields_by_kind (lines example_hunk)"
proof -
  have 1: "example_file \<in> set (parse_unified_diff example_diff)"
    by (simp add: parse_example_diff)
  have 2: "example_hunk \<in> set (hunks example_file)"
    by (simp add: example_file_def)
  from parse_line_numbers_replay [OF 1 2] show ?thesis
    using 1 2 by (simp add: example_hunk_def list_all_iff)
qed

section \<open>When the parser appends a file to its result\<close>

lemma st_files_content_line: "st_files (content_line s line) = st_files s"
  by (simp add: content_line_def append_line_def split: hunk_ref.splits)

lemma st_files_step:
  "st_files (step s line) =
     (if file_header_match line then flush_file (st_files s) (st_current_file s) else st_files s)"
  by (simp add: step_def st_files_content_line split: option.splits prod.splits)

lemma length_flush_file: "length (flush_file fs cf) \<le> length fs + 1"
  by (simp add: flush_file_def split: option.splits)

lemma length_st_files_foldl:
  "length (st_files (foldl step s ls)) \<le> length (st_files s) + length (filter file_header_match ls)"
proof (induction ls arbitrary: s)
  case Nil
  then show ?case by simp
next
  case (Cons l ls)
  have "length (st_files (step s l)) \<le> length (st_files s) + (if file_header_match l then 1 else 0)"
    using length_flush_file [of "st_files s" "st_current_file s"] by (simp add: st_files_step)
  with Cons.IH [of "step s l"] show ?case by (simp split: if_splits)
qed

lemma old_match_not_header: "old_file_match l = Some p \<Longrightarrow> \<not> file_header_match l"
  by (auto simp: old_file_match_def file_header_match_def startswith_Cons split: if_splits list.splits)

lemma new_match_not_header: "new_file_match l = Some p \<Longrightarrow> \<not> file_header_match l"
  by (auto simp: new_file_match_def file_header_match_def startswith_Cons split: if_splits list.splits)

lemma new_match_not_old: "new_file_match l = Some p \<Longrightarrow> old_file_match l = None"
  by (auto simp: new_file_match_def old_file_match_def startswith_Cons split: if_splits list.splits)

lemma step_old_line:
  "old_file_match l = Some p \<Longrightarrow> step s l = s\<lparr>st_old_path := Some p\<rparr>"
  by (simp add: step_def old_match_not_header)

lemma step_new_line:
  "new_file_match l = Some p \<Longrightarrow> st_old_path s = Some op \<Longrightarrow>
     step s l = s\<lparr>st_new_path := Some p, st_current_file := Some (mk_DiffFile op p),
                   st_current_hunk := detach (st_current_hunk s)\<rparr>"
  by (simp add: step_def new_match_not_header new_match_not_old)

text \<open>
  Claim C10. parse_unified_diff appends a file to its result only at a
  \<^verbatim>\<open>diff --git\<close> line and at the end of the input, so the result has at most one
  file more than the input has \<^verbatim>\<open>diff --git\<close> lines; and a \<^verbatim>\<open>---\<close> line followed by
  a \<^verbatim>\<open>+++\<close> line, in any state of the loop, makes a new file with their two paths
  the current one and appends nothing: a file that was current before is replaced
  and never reaches the result.
\<close>

theorem parse_appends_only_at_header:
  "length (parse_unified_diff d) \<le> length (filter file_header_match (splitlines d)) + 1 \<and>
   st_files (step s line) =
     (if file_header_match line then flush_file (st_files s) (st_current_file s) else st_files s) \<and>
   (old_file_match l1 = Some op \<and> new_file_match l2 = Some np \<longrightarrow>
      st_current_file (step (step s l1) l2) = Some (mk_DiffFile op np) \<and>
      st_files (step (step s l1) l2) = st_files s)"
proof -
  have "length (parse_unified_diff d) \<le> length (filter file_header_match (splitlines d)) + 1"
  proof (cases "d = []")
    case True
    then show ?thesis by (simp add: parse_unified_diff_def)
  next
    case False
    let ?s = "foldl step init_state (splitlines d)"
    have "length (st_files ?s) \<le> length (filter file_header_match (splitlines d))"
      using length_st_files_foldl [of init_state "splitlines d"] by (simp add: init_state_def)
    moreover have "length (flush_file (st_files ?s) (st_current_file ?s)) \<le> length (st_files ?s) + 1"
      by (rule length_flush_file)
    ultimately show ?thesis using False by (simp add: parse_unified_diff_def Let_def)
  qed
  moreover have "old_file_match l1 = Some op \<and> new_file_match l2 = Some np \<longrightarrow>
      st_current_file (step (step s l1) l2) = Some (mk_DiffFile op np) \<and>
      st_files (step (step s l1) l2) = st_files s"
    by (auto simp: step_old_line step_new_line)
  ultimately show ?thesis by (simp add: st_files_step)
qed

theorem parse_appends_only_at_header_witness:
  "old_file_match ''--- a/y.py'' = Some ''y.py'' \<and> new_file_match ''+++ b/y.py'' = Some ''y.py'' \<and>
   st_current_file (foldl step init_state two_pairs_prefix) = Some two_pairs_first \<and>
   st_current_file (step (step (foldl step init_state two_pairs_prefix) ''--- a/y.py'') ''+++ b/y.py'')
     = Some (mk_DiffFile ''y.py'' ''y.py'') \<and>
   st_files (step (step (foldl step init_state two_pairs_prefix) ''--- a/y.py'') ''+++ b/y.py'')
     = st_files (foldl step init_state two_pairs_prefix) \<and>
   st_files (foldl step init_state two_pairs_prefix) = []"
proof -
  have 1: "old_file_match ''--- a/y.py'' = Some ''y.py''" by code_simp
  have 2: "new_file_match ''+++ b/y.py'' = Some ''y.py''" by code_simp
  have 3: "st_current_file (foldl step init_state two_pairs_prefix) = Some two_pairs_first"
    by code_simp
  have 4: "st_files (foldl step init_state two_pairs_prefix) = []" by code_simp
  from parse_appends_only_at_header
         [of _ "foldl step init_state two_pairs_prefix" _ "''--- a/y.py''" "''y.py''"
             "''+++ b/y.py''" "''y.py''"]
  show ?thesis using 1 2 3 4 by simp
qed

section \<open>Context thinning\<close>

lemma blocks_inv_init: "blocks_inv [] ([], \<lparr>b_type = None, b_lines = []\<rparr>)"
  by (simp add: blocks_inv_def)

lemma blocks_inv_step:
  assumes "blocks_inv ls st"
  shows "blocks_inv (ls @ [l]) (block_step st l)"
proof -
  obtain bs cur where st: "st = (bs, cur)" by (cases st)
  show ?thesis
  proof (cases "Some (line_type l) = b_type cur")
    case True
    then have ne: "b_lines cur \<noteq> []"
      using assms st by (auto simp: blocks_inv_def split: if_splits)
    with True assms st show ?thesis
      by (auto simp: blocks_inv_def block_step_def block_wf_def)
  next
    case False
    show ?thesis
    proof (cases "b_lines cur = []")
      case True
      with False assms st show ?thesis
        by (auto simp: blocks_inv_def block_step_def block_wf_def)
    next
      case ne: False
      with False assms st show ?thesis
        by (auto simp: blocks_inv_def block_step_def block_wf_def distinct_adj_append_iff)
    qed
  qed
qed

lemma blocks_inv_foldl:
  "blocks_inv ls (foldl block_step ([], \<lparr>b_type = None, b_lines = []\<rparr>) ls)"
proof (induction ls rule: rev_induct)
  case Nil
  show ?case by (simp add: blocks_inv_init)
next
  case (snoc l ls)
  then show ?case by (simp add: blocks_inv_step)
qed

lemma context_blocks_maximal_runs: "maximal_runs ls (context_blocks_of ls)"
proof -
  obtain bs cur where st: "foldl block_step ([], \<lparr>b_type = None, b_lines = []\<rparr>) ls = (bs, cur)"
    by (cases "foldl block_step ([], \<lparr>b_type = None, b_lines = []\<rparr>) ls")
  have "blocks_inv ls (bs, cur)"
    using blocks_inv_foldl [of ls] st by simp
  then show ?thesis
    using st
    by (auto simp: context_blocks_of_def maximal_runs_def blocks_inv_def
        distinct_adj_append_iff split: if_splits)
qed

lemma block_wf_type:
  assumes "block_wf b"
  shows "\<exists>t. b_type b = Some t"
proof -
  from assms obtain a r where "b_lines b = a # r" and "Some (line_type a) = b_type b"
    by (cases "b_lines b") (auto simp: block_wf_def)
  then have "b_type b = Some (line_type a)" by simp
  then show ?thesis by blast
qed

lemma take_min_length: "take (min k (length xs)) xs = take k xs"
  by (simp add: min_def)

lemma keep_lines_thinned_run:
  assumes "block_wf b"
  shows "keep_lines n i b = thinned_run (i = 0 \<or> i + 1 = n) b"
proof -
  from block_wf_type [OF assms] obtain t where t: "b_type b = Some t" by blast
  show ?thesis
    by (cases t) (auto simp: keep_lines_def thinned_run_def t take_min_length)
qed

lemma map_keep_lines:
  "list_all block_wf bs \<Longrightarrow>
     map (\<lambda>(i, b). keep_lines n i b) (enumerate k bs)
       = map (\<lambda>(i, b). thinned_run (i = 0 \<or> i + 1 = n) b) (enumerate k bs)"
  by (induction bs arbitrary: k) (simp_all add: keep_lines_thinned_run)

lemma filter_change_context_block:
  "list_all (\<lambda>l. Some (line_type l) = Some Context) ls \<Longrightarrow> set ks \<subseteq> set ls \<Longrightarrow>
     filter is_change ks = []"
  by (auto simp: list_all_iff is_change_def filter_empty_conv)

lemma thinned_run_subset: "b_lines b \<noteq> [] \<Longrightarrow> set (thinned_run e b) \<subseteq> set (b_lines b)"
  by (auto simp: thinned_run_def dest: in_set_takeD)

lemma filter_change_thinned_run:
  assumes "block_wf b"
  shows "filter is_change (thinned_run e b) = filter is_change (b_lines b)"
proof (cases "b_type b = Some Context")
  case True
  with assms have all: "list_all (\<lambda>l. Some (line_type l) = Some Context) (b_lines b)"
    and ne: "b_lines b \<noteq> []"
    by (simp_all add: block_wf_def)
  have "filter is_change (thinned_run e b) = []"
    by (rule filter_change_context_block [OF all thinned_run_subset [OF ne]])
  moreover have "filter is_change (b_lines b) = []"
    by (rule filter_change_context_block [OF all subset_refl])
  ultimately show ?thesis by simp
next
  case False
  then show ?thesis by (simp add: thinned_run_def)
qed

lemma filter_change_kept:
  "list_all block_wf bs \<Longrightarrow>
     filter is_change (concat (map (\<lambda>(i, b). keep_lines n i b) (enumerate k bs)))
       = filter is_change (concat (map b_lines bs))"
  by (induction bs arbitrary: k)
     (simp_all add: keep_lines_thinned_run filter_change_thinned_run)

lemma filter_change_essential: "filter is_change (essential_lines ls) = filter is_change ls"
proof -
  have mr: "maximal_runs ls (context_blocks_of ls)" by (rule context_blocks_maximal_runs)
  then have "list_all block_wf (context_blocks_of ls)"
    and "concat (map b_lines (context_blocks_of ls)) = ls"
    by (simp_all add: maximal_runs_def)
  then show ?thesis
    using filter_change_kept [of "context_blocks_of ls" "length (context_blocks_of ls)" 0]
    by (simp add: essential_lines_def Let_def)
qed

lemma essential_lines_runs:
  "essential_lines ls =
     concat (map (\<lambda>(i, b). thinned_run (i = 0 \<or> i + 1 = length (context_blocks_of ls)) b)
                 (enumerate 0 (context_blocks_of ls)))"
proof -
  have wf: "list_all block_wf (context_blocks_of ls)"
    using context_blocks_maximal_runs [of ls] by (simp add: maximal_runs_def)
  show ?thesis
    unfolding essential_lines_def Let_def
    by (simp only: map_keep_lines [OF wf])
qed

lemma essential_example:
  "essential_lines thin_example_lines =
     [ctx_line ''c1'' 1 1, ctx_line ''c2'' 2 2, add_line ''a1'' 4,
      ctx_line ''c4'' 4 5, ctx_line ''c6'' 6 7, del_line ''d1'' 7,
      ctx_line ''c7'' 8 8, ctx_line ''c8'' 9 9]"
  by code_simp

section \<open>optimize_diff_context in the namespace of its module\<close>

lemma optimize_NameError:
  "optimize_diff_context token_counter_globals count_tokens d max_tokens
     = Inl (NameError ''parse_unified_diff'')"
  by (simp add: optimize_diff_context_def token_counter_globals_def load_global_def and_then_def)



text \<open>
  Claim C5 (context thinning keeps every Addition and Deletion line of every hunk) does
  not hold of the code, which produces no thinned hunk: for every token counter, diff text
  and budget, optimize_diff_context raises NameError for \<^verbatim>\<open>parse_unified_diff\<close> at its
  first statement, as it does for the two-file diff with a budget of 40 characters, which
  is over the budget and has Addition and Deletion lines.
\<close>

theorem optimize_raises_before_thinning:
  "optimize_diff_context token_counter_globals count_tokens d max_tokens
     = Inl (NameError ''parse_unified_diff'') \<and>
   40 < count_chars two_files_diff \<and>
   map (\<lambda>f. length (filter is_change (concat (map lines (hunks f)))))
     (parse_unified_diff two_files_diff) = [1, 2] \<and>
   optimize_diff_context token_counter_globals count_chars two_files_diff 40
     = Inl (NameError ''parse_unified_diff'')"
proof -
  have "40 < count_chars two_files_diff"
    by (simp add: count_chars_def two_files_diff_def example_diff_def)
  moreover have "map (\<lambda>f. length (filter is_change (concat (map lines (hunks f)))))
     (parse_unified_diff two_files_diff) = [1, 2]"
    by code_simp
  ultimately show ?thesis by (simp add: optimize_NameError)
qed



text \<open>
  Claim C3 (a diff text within the budget is returned unchanged; the empty string under a
  positive budget gives the empty string) does not hold of the code: the budget test of
  line 61 is never reached, because line 55 raises NameError for \<^verbatim>\<open>parse_unified_diff\<close>.
  So the result is never the diff text, and for the empty string with a budget of 10 it is
  the exception.
\<close>

theorem optimize_within_budget_raises:
  "optimize_diff_context token_counter_globals count_tokens d max_tokens \<noteq> Inr (Some d) \<and>
   count_chars [] \<le> 10 \<and>
   optimize_diff_context token_counter_globals count_chars [] 10
     = Inl (NameError ''parse_unified_diff'') \<and>
   count_chars example_diff \<le> 1000 \<and>
   optimize_diff_context token_counter_globals count_chars example_diff 1000
     = Inl (NameError ''parse_unified_diff'')"
proof -
  have "count_chars example_diff \<le> 1000"
    by (simp add: count_chars_def example_diff_def)
  then show ?thesis by (simp add: optimize_NameError count_chars_def)
qed

section \<open>detect_common_language\<close>

lemma ext_map_values_nonempty: "map_of ext_map e = Some l \<Longrightarrow> l \<noteq> []"
  by (auto simp: ext_map_def split: if_splits)

lemma get_language_nonempty: "get_language_from_path p = Some l \<Longrightarrow> l \<noteq> []"
  by (auto simp: get_language_from_path_def Let_def dest: ext_map_values_nonempty split: if_splits)

lemma count_language_tally:
  "foldl count_language d ps = foldl tally_step d (List.map_filter get_language_from_path ps)"
proof (induction ps arbitrary: d)
  case Nil
  show ?case by (simp add: List.map_filter_simps)
next
  case (Cons p ps)
  show ?case
  proof (cases "get_language_from_path p")
    case None
    then show ?thesis using Cons.IH [of d]
      by (simp add: List.map_filter_simps count_language_def)
  next
    case (Some l)
    then have "l \<noteq> []" by (rule get_language_nonempty)
    with Some show ?thesis using Cons.IH [of "tally_step d l"]
      by (simp add: List.map_filter_simps count_language_def tally_step_def)
  qed
qed

lemma first_occurrences_snoc:
  "first_occurrences (xs @ [x]) =
     (if x \<in> set xs then first_occurrences xs else first_occurrences xs @ [x])"
  by (induction xs) auto

lemma set_first_occurrences: "set (first_occurrences xs) = set xs"
  by (induction xs) auto

lemma distinct_first_occurrences: "distinct (first_occurrences xs)"
  by (induction xs) (auto simp: set_first_occurrences)

lemma dict_set_present:
  "distinct ks \<Longrightarrow> x \<in> set ks \<Longrightarrow>
     dict_set (map (\<lambda>k. (k, f k)) ks) x v = map (\<lambda>k. (k, if k = x then v else f k)) ks"
  by (induction ks) auto

lemma dict_set_absent:
  "x \<notin> set ks \<Longrightarrow> dict_set (map (\<lambda>k. (k, f k)) ks) x v = map (\<lambda>k. (k, f k)) ks @ [(x, v)]"
  by (induction ks) auto

lemma dict_get_tabulated:
  "dict_get (map (\<lambda>k. (k, f k)) ks) x dflt = (if x \<in> set ks then f x else dflt)"
  by (induction ks) (auto simp: dict_get_def)

lemma tally_first_occurrences:
  "foldl tally_step [] xs = map (\<lambda>k. (k, count_list xs k)) (first_occurrences xs)"
proof (induction xs rule: rev_induct)
  case Nil
  show ?case by simp
next
  case (snoc x xs)
  show ?case
  proof (cases "x \<in> set xs")
    case True
    then show ?thesis
      using snoc.IH
      by (simp add: tally_step_def dict_get_tabulated set_first_occurrences
          dict_set_present distinct_first_occurrences first_occurrences_snoc)
  next
    case False
    have "map (\<lambda>k. (k, count_list (xs @ [x]) k)) (first_occurrences xs)
            = map (\<lambda>k. (k, count_list xs k)) (first_occurrences xs)"
      using False by (auto simp: set_first_occurrences)
    with False show ?thesis
      using snoc.IH
      by (simp add: tally_step_def dict_get_tabulated set_first_occurrences
          dict_set_absent first_occurrences_snoc)
  qed
qed

lemma max_from_position:
  "\<exists>pre post. best # xs = pre @ max_from best xs # post \<and>
      (\<forall>y \<in> set pre. snd y < snd (max_from best xs)) \<and>
      (\<forall>y \<in> set post. snd y \<le> snd (max_from best xs))"
proof (induction xs arbitrary: best)
  case Nil
  show ?case by (rule exI [of _ "[]"], rule exI [of _ "[]"]) simp
next
  case (Cons x xs)
  show ?case
  proof (cases "snd best < snd x")
    case True
    define r where "r = max_from x xs"
    from Cons.IH [of x] obtain pre post where
      eq: "x # xs = pre @ r # post"
      and pre: "\<forall>y \<in> set pre. snd y < snd r"
      and post: "\<forall>y \<in> set post. snd y \<le> snd r"
      unfolding r_def by blast
    have "snd x \<le> snd r"
    proof (cases pre)
      case Nil
      with eq have "x # xs = r # post" by (simp only: append_Nil)
      then have "x = r" by blast
      then show ?thesis by (simp only: order_refl)
    next
      case (Cons p ps)
      with eq have "x = p" by simp
      with pre Cons show ?thesis by (simp add: less_imp_le)
    qed
    with True have "snd best < snd r" by simp
    with eq pre post have
      "best # x # xs = (best # pre) @ r # post \<and>
       (\<forall>y \<in> set (best # pre). snd y < snd r) \<and>
       (\<forall>y \<in> set post. snd y \<le> snd r)"
      by simp
    then have "\<exists>pre post. best # x # xs = pre @ r # post \<and>
       (\<forall>y \<in> set pre. snd y < snd r) \<and> (\<forall>y \<in> set post. snd y \<le> snd r)"
      by blast
    moreover have "max_from best (x # xs) = r" using True by (simp add: r_def)
    ultimately show ?thesis by (simp only:)
  next
    case False
    define r where "r = max_from best xs"
    from Cons.IH [of best] obtain pre post where
      eq: "best # xs = pre @ r # post"
      and pre: "\<forall>y \<in> set pre. snd y < snd r"
      and post: "\<forall>y \<in> set post. snd y \<le> snd r"
      unfolding r_def by blast
    have res: "max_from best (x # xs) = r" using False by (simp add: r_def)
    have "\<exists>pre post. best # x # xs = pre @ r # post \<and>
       (\<forall>y \<in> set pre. snd y < snd r) \<and> (\<forall>y \<in> set post. snd y \<le> snd r)"
    proof (cases pre)
      case Nil
      with eq have "best # xs = r # post" by (simp only: append_Nil)
      then have b1: "r = best" and b2: "xs = post" by blast+
      from False b1 have "snd x \<le> snd r" by simp
      with post b1 b2 have
        "best # x # xs = [] @ r # (x # post) \<and>
         (\<forall>y \<in> set []. snd y < snd r) \<and>
         (\<forall>y \<in> set (x # post). snd y \<le> snd r)"
        by simp
      then show ?thesis by blast
    next
      case (Cons p ps)
      with eq have b1: "p = best" and b2: "xs = ps @ r # post" by simp_all
      from pre Cons b1 have lt: "snd best < snd r" by simp
      with False have "snd x < snd r" by simp
      with b2 pre Cons lt post have
        "best # x # xs = (best # x # ps) @ r # post \<and>
         (\<forall>y \<in> set (best # x # ps). snd y < snd r) \<and>
         (\<forall>y \<in> set post. snd y \<le> snd r)"
        by simp
      then show ?thesis by blast
    qed
    with res show ?thesis by (simp only:)
  qed
qed

lemma find_skip_prefix: "\<forall>y \<in> set pre. \<not> P y \<Longrightarrow> find P (pre @ ys) = find P ys"
  by (induction pre) auto

lemma find_max_from:
  "find (\<lambda>e. \<forall>e' \<in> set (best # xs). snd e' \<le> snd e) (best # xs) = Some (max_from best xs)"
proof -
  let ?r = "max_from best xs"
  let ?P = "\<lambda>e. \<forall>e' \<in> set (best # xs). snd e' \<le> (snd e :: nat)"
  from max_from_position [of best xs] obtain pre post where
    eq: "best # xs = pre @ ?r # post"
    and pre: "\<forall>y \<in> set pre. snd y < snd ?r"
    and post: "\<forall>y \<in> set post. snd y \<le> snd ?r"
    by blast
  have r_in: "?r \<in> set (best # xs)" by (subst eq) simp
  have Pr: "?P ?r"
  proof
    fix e' assume "e' \<in> set (best # xs)"
    then have "e' \<in> set (pre @ ?r # post)" using eq by simp
    with pre post show "snd e' \<le> snd ?r" by (auto simp: less_imp_le)
  qed
  have notP: "\<forall>y \<in> set pre. \<not> ?P y"
  proof
    fix y assume "y \<in> set pre"
    with pre have "snd y < snd ?r" by blast
    with r_in show "\<not> ?P y" by (auto simp: not_le)
  qed
  have "find ?P (best # xs) = find ?P (pre @ ?r # post)" using eq by simp
  also have "\<dots> = find ?P (?r # post)" by (rule find_skip_prefix [OF notP])
  also have "\<dots> = Some ?r" using Pr by simp
  finally show ?thesis .
qed

lemma find_map_tabulated:
  "find P (map f ks) = map_option f (find (\<lambda>k. P (f k)) ks)"
  by (induction ks) auto

lemma find_filter_neq: "\<not> Q x \<Longrightarrow> find Q (filter (\<lambda>y. y \<noteq> x) ys) = find Q ys"
  by (induction ys) auto

lemma find_first_occurrences: "find Q (first_occurrences xs) = find Q xs"
  by (induction xs) (auto simp: find_filter_neq)

lemma detect_common_tally:
  "detect_common_language ps =
     (case foldl tally_step [] (detected_languages ps) of
        [] \<Rightarrow> None
      | item # items \<Rightarrow> Some (fst (max_from item items)))"
  by (cases "ps = []")
     (simp_all add: detect_common_language_def count_language_tally detected_languages_def
        List.map_filter_simps)

lemma detect_common_most_common:
  "detect_common_language ps = most_common_first (detected_languages ps)"
proof -
  let ?ls = "detected_languages ps"
  let ?c = "count_list ?ls"
  let ?d = "map (\<lambda>k. (k, ?c k)) (first_occurrences ?ls)"
  let ?Q = "\<lambda>l. \<forall>l' \<in> set ?ls. ?c l' \<le> ?c l"
  have tally: "foldl tally_step [] ?ls = ?d" by (rule tally_first_occurrences)
  show ?thesis
  proof (cases ?d)
    case Nil
    then have "?ls = []"
      by (metis list.map_disc_iff set_first_occurrences set_empty)
    with Nil tally show ?thesis
      by (simp add: detect_common_tally most_common_first_def)
  next
    case (Cons item items)
    have "find (\<lambda>e. \<forall>e' \<in> set ?d. snd e' \<le> snd e) ?d = Some (max_from item items)"
      using find_max_from [of item items] Cons by simp
    then have "map_option (\<lambda>k. (k, ?c k)) (find ?Q (first_occurrences ?ls))
                 = Some (max_from item items)"
      by (simp add: find_map_tabulated set_first_occurrences)
    then obtain z where z: "find ?Q (first_occurrences ?ls) = Some z"
      and zr: "(z, ?c z) = max_from item items"
      by auto
    from zr have "fst (max_from item items) = z" by (metis fst_conv)
    with z have "find ?Q ?ls = Some (fst (max_from item items))"
      by (simp add: find_first_occurrences)
    with Cons tally show ?thesis
      by (simp add: detect_common_tally most_common_first_def)
  qed
qed

lemma detect_common_None_iff:
  "detect_common_language ps = None \<longleftrightarrow> detected_languages ps = []"
proof -
  have "first_occurrences (detected_languages ps) = [] \<longleftrightarrow> detected_languages ps = []"
    by (cases "detected_languages ps") simp_all
  then have "foldl tally_step [] (detected_languages ps) = [] \<longleftrightarrow> detected_languages ps = []"
    by (simp only: tally_first_occurrences map_is_Nil_conv)
  then show ?thesis
    by (cases "foldl tally_step [] (detected_languages ps)") (simp_all add: detect_common_tally)
qed

lemma detected_example:
  "detected_languages [''a.py'', ''b.py'', ''c.js''] = [''python'', ''python'', ''javascript'']"
  by code_simp

lemma detect_example: "detect_common_language [''a.py'', ''b.py'', ''c.js''] = Some ''python''"
  by code_simp

text \<open>
  Claim C9. detect_common_language returns the language with the highest number of
  occurrences among the per-path detection results; among languages with that number it
  returns the one met first when the paths are scanned in order (the first detection
  result that no language exceeds); it returns nothing exactly when no path yields a
  language, in particular for the empty list; and for a.py, b.py, c.js it returns python.
\<close>

theorem detect_common_language_most_common:
  "detect_common_language ps = most_common_first (detected_languages ps) \<and>
   (detect_common_language ps = None \<longleftrightarrow> detected_languages ps = []) \<and>
   detect_common_language [] = None \<and>
   detect_common_language [''a.py'', ''b.py'', ''c.js''] = Some ''python''"
  using detect_common_most_common [of ps] detect_common_None_iff [of ps]
  by (simp add: detect_example) (simp add: detect_common_language_def)

theorem detect_common_language_most_common_witness:
  "detected_languages [''x.js'', ''a.py'', ''README'', ''y.ts'', ''b.py'', ''z.js'']
     = [''javascript'', ''python'', ''typescript'', ''python'', ''javascript''] \<and>
   most_common_first [''javascript'', ''python'', ''typescript'', ''python'', ''javascript'']
     = Some ''javascript'' \<and>
   detect_common_language [''x.js'', ''a.py'', ''README'', ''y.ts'', ''b.py'', ''z.js'']
     = Some ''javascript''"
proof -
  have 1: "detected_languages [''x.js'', ''a.py'', ''README'', ''y.ts'', ''b.py'', ''z.js'']
     = [''javascript'', ''python'', ''typescript'', ''python'', ''javascript'']"
    by code_simp
  have 2: "most_common_first [''javascript'', ''python'', ''typescript'', ''python'', ''javascript'']
     = Some ''javascript''"
    by code_simp
  from detect_common_language_most_common
         [of "[''x.js'', ''a.py'', ''README'', ''y.ts'', ''b.py'', ''z.js'']"]
  show ?thesis using 1 2 by simp
qed

section \<open>chunk_diff_by_files\<close>

lemma generate_file_diff_nonempty: "generate_file_diff f \<noteq> []"
  by (simp add: generate_file_diff_def file_lines_def)

lemma get_path_effective: "get_path = effective_path"
  by (rule ext) (simp add: get_path_def effective_path_def)

lemma render_all_Nil_iff: "render_all g = [] \<longleftrightarrow> g = []"
  by (cases g) (simp_all add: render_all_def)

lemma render_all_snoc: "render_all (g @ [f]) = render_all g @ generate_file_diff f @ [CHR 0x0A]"
  by (simp add: render_all_def)

lemma render_longer_than_member:
  "f \<in> set g \<Longrightarrow> length (generate_file_diff f) < length (render_all g)"
  by (induction g) (auto simp: render_all_def)

lemma chunk_inv_step:
  assumes "chunk_inv m gs cur s"
  shows "\<exists>gs' cur'. chunk_inv m gs' cur' (chunk_step m s f) \<and>
           concat gs' @ cur' = concat gs @ cur @ [f]"
proof (cases "int (length (cs_current_chunk s)) + int (length (generate_file_diff f)) > m
               \<and> cs_current_chunk s \<noteq> []")
  case True
  with assms have ne: "cur \<noteq> []" by (auto simp: chunk_inv_def render_all_Nil_iff)
  from assms True ne have "chunk_inv m (gs @ [cur]) [f] (chunk_step m s f)"
    by (auto simp: chunk_inv_def chunk_step_def Let_def close_chunk_def chunk_of_def render_all_def
        get_path_effective)
  then show ?thesis by (intro exI [of _ "gs @ [cur]"] exI [of _ "[f]"]) simp
next
  case False
  have "\<forall>f' \<in> set (cur @ [f]). m < int (length (generate_file_diff f')) \<longrightarrow> cur @ [f] = [f']"
  proof (cases "cur = []")
    case True
    then show ?thesis by simp
  next
    case ne: False
    with False assms have le: "int (length (render_all cur)) + int (length (generate_file_diff f)) \<le> m"
      by (auto simp: chunk_inv_def render_all_Nil_iff)
    have "\<not> m < int (length (generate_file_diff f'))" if "f' \<in> set (cur @ [f])" for f'
    proof (cases "f' = f")
      case True
      with le show ?thesis by simp
    next
      case False
      with that have "f' \<in> set cur" by simp
      from render_longer_than_member [OF this] le show ?thesis by simp
    qed
    then show ?thesis by blast
  qed
  with assms False have "chunk_inv m gs (cur @ [f]) (chunk_step m s f)"
    by (auto simp: chunk_inv_def chunk_step_def Let_def render_all_snoc)
  then show ?thesis by (intro exI [of _ gs] exI [of _ "cur @ [f]"]) simp
qed

lemma chunk_inv_foldl:
  "chunk_inv m gs cur s \<Longrightarrow>
     \<exists>gs' cur'. chunk_inv m gs' cur' (foldl (chunk_step m) s fs) \<and>
        concat gs' @ cur' = concat gs @ cur @ fs"
proof (induction fs arbitrary: gs cur s)
  case Nil
  then show ?case by auto
next
  case (Cons f fs)
  from chunk_inv_step [OF Cons.prems, of f] obtain gs1 cur1 where
    1: "chunk_inv m gs1 cur1 (chunk_step m s f)" and 2: "concat gs1 @ cur1 = concat gs @ cur @ [f]"
    by blast
  from Cons.IH [OF 1] obtain gs2 cur2 where
    "chunk_inv m gs2 cur2 (foldl (chunk_step m) (chunk_step m s f) fs)"
    and "concat gs2 @ cur2 = concat gs1 @ cur1 @ fs"
    by blast
  with 2 show ?case by (intro exI [of _ gs2] exI [of _ cur2]) simp
qed

lemma chunks_are_groups:
  "\<exists>gs. concat gs = parse_unified_diff d \<and> (\<forall>g \<in> set gs. g \<noteq> []) \<and>
      chunk_diff_by_files d m = map chunk_of gs \<and>
      (\<forall>g \<in> set gs. \<forall>f \<in> set g. m < int (length (generate_file_diff f)) \<longrightarrow> g = [f])"
proof -
  let ?s0 = "\<lparr>cs_chunks = [], cs_current_chunk = [], cs_current_files = []\<rparr>"
  have "chunk_inv m [] [] ?s0" by (simp add: chunk_inv_def render_all_def)
  from chunk_inv_foldl [OF this, of "parse_unified_diff d"] obtain gs cur where
    inv: "chunk_inv m gs cur (foldl (chunk_step m) ?s0 (parse_unified_diff d))"
    and cat: "concat gs @ cur = parse_unified_diff d"
    by auto
  show ?thesis
  proof (cases "cur = []")
    case True
    with inv cat show ?thesis
      by (intro exI [of _ gs])
         (auto simp: chunk_inv_def chunk_diff_by_files_def Let_def render_all_def)
  next
    case False
    with inv cat show ?thesis
      by (intro exI [of _ "gs @ [cur]"])
         (auto simp: chunk_inv_def chunk_diff_by_files_def Let_def render_all_Nil_iff
            close_chunk_def chunk_of_def get_path_effective)
  qed
qed

lemma parse_two_files: "parse_unified_diff two_files_diff = [example_file, second_file]"
  by code_simp

lemma parse_deletion_diff: "parse_unified_diff deletion_diff = [example_file, deleted_file]"
  by code_simp

text \<open>
  Claim C8. For every diff text and every limit, the chunks of chunk_diff_by_files are the
  chunks of a split of the parsed file list into consecutive groups, none empty: the text
  of a chunk is the renders of the files of its group, each whole and followed by a
  newline, and its path list is their effective paths (the new path, or the old path
  when the new path is \<^verbatim>\<open>/dev/null\<close>). So the path lists of the chunks, one after the
  other, are the effective paths of the parsed files in order, each file once. A file
  whose own render is longer than the limit is alone in its chunk. The empty input gives
  no chunk.
\<close>

theorem chunk_coverage:
  "(\<exists>gs. concat gs = parse_unified_diff d \<and> (\<forall>g \<in> set gs. g \<noteq> []) \<and>
      chunk_diff_by_files d m = map chunk_of gs \<and>
      (\<forall>g \<in> set gs. \<forall>f \<in> set g. m < int (length (generate_file_diff f)) \<longrightarrow> g = [f])) \<and>
   concat (map files (chunk_diff_by_files d m)) = map effective_path (parse_unified_diff d) \<and>
   chunk_diff_by_files [] m = []"
proof -
  from chunks_are_groups [of d m] obtain gs where
    gs: "concat gs = parse_unified_diff d" "chunk_diff_by_files d m = map chunk_of gs"
    by blast
  have "concat (map files (map chunk_of gs)) = map effective_path (concat gs)"
    by (induction gs) (simp_all add: chunk_of_def)
  with gs have "concat (map files (chunk_diff_by_files d m))
                  = map effective_path (parse_unified_diff d)"
    by simp
  moreover have "chunk_diff_by_files [] m = []"
    by (simp add: chunk_diff_by_files_def parse_unified_diff_def)
  ultimately show ?thesis using chunks_are_groups [of d m] by blast
qed

theorem chunk_coverage_witness:
  "parse_unified_diff deletion_diff = [example_file, deleted_file] \<and>
   new_path deleted_file = ''/dev/null'' \<and>
   map effective_path (parse_unified_diff deletion_diff) = [''x.py'', ''old.py''] \<and>
   map files (chunk_diff_by_files deletion_diff 40) = [[''x.py''], [''old.py'']] \<and>
   map (int \<circ> length \<circ> generate_file_diff) (parse_unified_diff deletion_diff) = [42, 43] \<and>
   map files (chunk_diff_by_files deletion_diff 100) = [[''x.py'', ''old.py'']] \<and>
   map files (chunk_diff_by_files two_files_diff 40) = [[''x.py''], [''y.py'']]"
proof -
  have 1: "map files (chunk_diff_by_files deletion_diff 40) = [[''x.py''], [''old.py'']]"
    by code_simp
  have 2: "map (int \<circ> length \<circ> generate_file_diff) (parse_unified_diff deletion_diff) = [42, 43]"
    by code_simp
  have 3: "map files (chunk_diff_by_files deletion_diff 100) = [[''x.py'', ''old.py'']]"
    by code_simp
  have 4: "map files (chunk_diff_by_files two_files_diff 40) = [[''x.py''], [''y.py'']]"
    by code_simp
  have 5: "new_path deleted_file = ''/dev/null''" by (simp add: deleted_file_def)
  from chunk_coverage [of deletion_diff 40]
  have "concat (map files (chunk_diff_by_files deletion_diff 40))
          = map effective_path (parse_unified_diff deletion_diff)"
    by blast
  with 1 2 3 4 5 show ?thesis by (simp add: parse_deletion_diff)
qed

section \<open>The end of optimize_diff_context\<close>

text \<open>
  Were the four names bound as an import from diff_parser.py would bind them, the last
  loop would compute the token count of each ranked file and the function would end
  without a return statement: for a diff that is over the budget before and after
  thinning, the result would be None.
\<close>

lemma for_each_Inr: "for_each (\<lambda>x. Inr (g x)) xs = Inr (map g xs)"
  by (induction xs) (simp_all add: and_then_def)

lemma last_loop_imported: "last_loop imported_globals count_tokens ranked = Inr None"
  by (simp add: last_loop_def imported_globals_def load_global_def and_then_def Let_def
      for_each_Inr)

lemma optimize_imported_example:
  "optimize_diff_context imported_globals count_chars example_diff 5 = Inr None"
  by code_simp

text \<open>
  Claim C1 (over the budget after both strategies, the result is the concatenation of the
  renders of the ranked files that fit, a string, never empty, never None, and nothing
  is thrown) does not hold of the code. For the example diff with a budget of 5
  characters, which is over the budget, optimize_diff_context raises NameError for
  \<^verbatim>\<open>parse_unified_diff\<close> and returns nothing; so it does for every token counter, diff
  text and budget.
\<close>

theorem optimize_over_budget_raises:
  "5 < count_chars example_diff \<and>
   optimize_diff_context token_counter_globals count_chars example_diff 5
     = Inl (NameError ''parse_unified_diff'') \<and>
   (\<forall>s. optimize_diff_context token_counter_globals count_tokens d max_tokens \<noteq> Inr (Some s))"
proof -
  have "5 < count_chars example_diff"
    by (simp add: count_chars_def example_diff_def)
  then show ?thesis by (simp add: optimize_NameError)
qed

section \<open>Rendered text and its lines\<close>

lemma splitlines_from_line:
  "no_break l \<Longrightarrow>
     splitlines_from cur (l @ CHR 0x0A # rest) = (cur @ l) # splitlines_from [] rest"
proof (induction l arbitrary: cur)
  case Nil
  show ?case by (simp add: is_linebreak_def)
next
  case (Cons c l)
  from Cons.prems have c: "\<not> is_linebreak c" and l: "no_break l"
    by (simp_all add: no_break_def)
  from c have "c \<noteq> CHR 0x0D" by (auto simp: is_linebreak_def)
  with c Cons.IH [OF l, of "cur @ [c]"] show ?case by simp
qed

lemma splitlines_unlines: "list_all no_break ls \<Longrightarrow> splitlines (unlines ls) = ls"
proof -
  have "list_all no_break ls \<Longrightarrow> splitlines_from [] (unlines ls) = ls"
    by (induction ls) (simp_all add: unlines_def splitlines_from_line)
  then show "list_all no_break ls \<Longrightarrow> splitlines (unlines ls) = ls"
    by (simp add: splitlines_def)
qed

lemma splitlines_from_no_break:
  "no_break cur \<Longrightarrow> list_all no_break (splitlines_from cur s)"
proof (induction cur s rule: splitlines_from.induct)
  case (1 cur)
  then show ?case by simp
next
  case (2 cur c cs)
  have nil: "no_break []" by (simp add: no_break_def)
  show ?case
  proof (cases "c = CHR 0x0D")
    case True
    then show ?thesis
      using 2 nil by (cases cs) (auto simp: Let_def)
  next
    case notcr: False
    show ?thesis
    proof (cases "is_linebreak c")
      case True
      then show ?thesis using 2 nil notcr by simp
    next
      case False
      with "2.prems" have "no_break (cur @ [c])" by (simp add: no_break_def)
      with 2 notcr False show ?thesis by simp
    qed
  qed
qed

lemma splitlines_no_break: "list_all no_break (splitlines s)"
  by (simp add: splitlines_def splitlines_from_no_break no_break_def)

lemma join_nl_unlines: "ls \<noteq> [] \<Longrightarrow> join_nl ls @ [CHR 0x0A] = unlines ls"
  by (induction ls rule: join_nl.induct) (simp_all add: unlines_def)

lemma unlines_append: "unlines (xs @ ys) = unlines xs @ unlines ys"
  by (simp add: unlines_def)

lemma render_all_unlines: "render_all fs = unlines (concat (map file_lines fs))"
proof (induction fs)
  case Nil
  show ?case by (simp add: render_all_def unlines_def)
next
  case (Cons f fs)
  have "file_lines f \<noteq> []" by (simp add: file_lines_def)
  from join_nl_unlines [OF this] Cons show ?case
    by (simp add: render_all_def generate_file_diff_def unlines_append)
qed

section \<open>Decimal numerals\<close>

lemma is_digit_digit_char: "d < 10 \<Longrightarrow> is_digit (digit_char d)"
  by (simp add: is_digit_def digit_char_def)

lemma digit_val_digit_char: "d < 10 \<Longrightarrow> digit_val (digit_char d) = d"
  by (simp add: digit_val_def digit_char_def)

lemma str_nat_digits: "list_all is_digit (str_nat n)"
proof (induction n rule: str_nat.induct)
  case (1 n)
  show ?case
  proof (cases "n < 10")
    case True
    then show ?thesis by (subst str_nat.simps) (simp add: is_digit_digit_char)
  next
    case False
    with 1 show ?thesis by (subst str_nat.simps) (simp add: is_digit_digit_char)
  qed
qed

lemma str_nat_nonempty: "str_nat n \<noteq> []"
  by (subst str_nat.simps) simp

lemma int_of_str_snoc: "int_of_str (s @ [c]) = 10 * int_of_str s + digit_val c"
  by (simp add: int_of_str_def)

lemma int_of_str_str_nat: "int_of_str (str_nat n) = n"
proof (induction n rule: str_nat.induct)
  case (1 n)
  show ?case
  proof (cases "n < 10")
    case True
    then show ?thesis
      by (subst str_nat.simps) (simp add: int_of_str_def digit_val_digit_char)
  next
    case False
    with 1 show ?thesis
      by (subst str_nat.simps) (simp add: int_of_str_snoc digit_val_digit_char)
  qed
qed

lemma is_digit_no_break: "is_digit c \<Longrightarrow> \<not> is_linebreak c"
  by (auto simp: is_digit_def is_linebreak_def)

lemma str_nat_no_break: "no_break (str_nat n)"
  using str_nat_digits [of n] by (auto simp: no_break_def list_all_iff is_digit_no_break)

lemma takeWhile_digits:
  "list_all is_digit ds \<Longrightarrow> \<not> is_digit c \<Longrightarrow> takeWhile is_digit (ds @ c # rest) = ds"
  by (induction ds) simp_all

lemma dropWhile_digits:
  "list_all is_digit ds \<Longrightarrow> \<not> is_digit c \<Longrightarrow> dropWhile is_digit (ds @ c # rest) = c # rest"
  by (induction ds) simp_all

section \<open>What the parser stores is well-formed\<close>

lemma no_break_Nil: "no_break []"
  by (simp add: no_break_def)

lemma no_break_append: "no_break (xs @ ys) \<longleftrightarrow> no_break xs \<and> no_break ys"
  by (simp add: no_break_def)

lemma no_break_subset: "no_break s \<Longrightarrow> set t \<subseteq> set s \<Longrightarrow> no_break t"
  by (auto simp: no_break_def list_all_iff)

lemma no_break_drop: "no_break s \<Longrightarrow> no_break (drop n s)"
  by (rule no_break_subset [OF _ set_drop_subset])

lemma path_group_ok: "no_break rest \<Longrightarrow> path_ok (path_group pre rest)"
proof -
  assume nb: "no_break rest"
  let ?r = "if startswith rest pre then drop (length pre) rest else rest"
  have "no_break ?r" using nb by (simp add: no_break_drop)
  then have "no_break (takeWhile (\<lambda>c. c \<noteq> CHR 0x09) ?r)"
    by (rule no_break_subset) (auto dest: set_takeWhileD)
  moreover have "CHR 0x09 \<notin> set (takeWhile (\<lambda>c. c \<noteq> CHR 0x09) ?r)"
    by (auto dest: set_takeWhileD)
  ultimately show ?thesis by (simp add: path_ok_def path_group_def)
qed

lemma old_file_match_ok: "no_break line \<Longrightarrow> old_file_match line = Some p \<Longrightarrow> path_ok p"
  by (auto simp: old_file_match_def path_group_ok no_break_drop split: if_splits)

lemma new_file_match_ok: "no_break line \<Longrightarrow> new_file_match line = Some p \<Longrightarrow> path_ok p"
  by (auto simp: new_file_match_def path_group_ok no_break_drop split: if_splits)

lemma file_wf_append_to_last_hunk:
  assumes "file_wf f" and "line_wf l"
  shows "file_wf (append_to_last_hunk l f)"
proof (cases "rev (hunks f)")
  case Nil
  with assms show ?thesis by (simp add: append_to_last_hunk_def)
next
  case (Cons h hs)
  then have "hunks f = rev hs @ [h]" by (metis rev_rev_ident rev.simps(2))
  with assms Cons show ?thesis
    by (simp add: append_to_last_hunk_def file_wf_def hunk_wf_def)
qed

lemma state_wf_append_line: "state_wf s \<Longrightarrow> line_wf l \<Longrightarrow> state_wf (append_line l s)"
  by (cases "st_current_hunk s"; cases "st_current_file s")
     (simp_all add: append_line_def state_wf_def flush_file_def file_wf_append_to_last_hunk)

lemma state_wf_cursors:
  "state_wf (s\<lparr>st_old_line_num := a\<rparr>) = state_wf s"
  "state_wf (s\<lparr>st_new_line_num := b\<rparr>) = state_wf s"
  by (simp_all add: state_wf_def)

lemma startswith_drop1:
  "startswith line [c] \<Longrightarrow> startswith (drop 1 line) p \<Longrightarrow> startswith line (c # p)"
  by (cases line) (simp_all add: startswith_Cons)

lemma state_wf_content_line:
  assumes "state_wf s" and "no_break line"
    and "\<not> startswith line ''--- ''" and "\<not> startswith line ''+++ ''"
  shows "state_wf (content_line s line)"
proof -
  have nb: "no_break (drop 1 line)" using assms(2) by (rule no_break_drop)
  have add: "startswith line ''+'' \<Longrightarrow> \<not> startswith (drop 1 line) ''++ ''"
    using assms(4) startswith_drop1 [of line "CHR ''+''" "''++ ''"] by blast
  have del: "startswith line ''-'' \<Longrightarrow> \<not> startswith (drop 1 line) ''-- ''"
    using assms(3) startswith_drop1 [of line "CHR ''-''" "''-- ''"] by blast
  show ?thesis
    using assms(1) nb add del
    by (simp add: content_line_def state_wf_cursors state_wf_append_line line_wf_def)
qed

lemma state_wf_step:
  assumes "state_wf s" and "no_break line"
  shows "state_wf (step s line)"
proof (cases "file_header_match line")
  case True
  with assms show ?thesis
    by (auto simp: step_def state_wf_def flush_file_def split: option.splits)
next
  case nohdr: False
  show ?thesis
  proof (cases "old_file_match line")
    case (Some p)
    with nohdr assms old_file_match_ok [OF assms(2) Some] show ?thesis
      by (simp add: step_def state_wf_def)
  next
    case noold: None
    show ?thesis
    proof (cases "new_file_match line")
      case (Some p)
      with nohdr noold assms new_file_match_ok [OF assms(2) Some] show ?thesis
        by (auto simp: step_def state_wf_def flush_file_def file_wf_def mk_DiffFile_def
            split: option.splits)
    next
      case nonew: None
      have c: "state_wf (content_line s line)"
        using assms noold nonew
        by (intro state_wf_content_line)
           (auto simp: old_file_match_def new_file_match_def split: if_splits)
      show ?thesis
      proof (cases "hunk_header_match line")
        case None
        with nohdr noold nonew c show ?thesis by (simp add: step_def)
      next
        case (Some hh)
        obtain os oc ns nc where hh: "hh = (os, oc, ns, nc)" by (cases hh)
        show ?thesis
        proof (cases "st_current_file s")
          case None
          with nohdr noold nonew Some hh c show ?thesis by (simp add: step_def)
        next
          case (Some f)
          with nohdr noold nonew \<open>hunk_header_match line = Some hh\<close> hh assms(1) show ?thesis
            by (simp add: step_def state_wf_def flush_file_def file_wf_def mk_DiffHunk_def
                hunk_wf_def)
        qed
      qed
    qed
  qed
qed

lemma state_wf_foldl:
  "state_wf s \<Longrightarrow> list_all no_break ls \<Longrightarrow> state_wf (foldl step s ls)"
  by (induction ls arbitrary: s) (simp_all add: state_wf_step)

lemma parse_files_wf: "list_all file_wf (parse_unified_diff d)"
proof (cases "d = []")
  case True
  then show ?thesis by (simp add: parse_unified_diff_def)
next
  case False
  have "state_wf init_state" by (simp add: state_wf_def init_state_def flush_file_def)
  then have "state_wf (foldl step init_state (splitlines d))"
    by (rule state_wf_foldl) (rule splitlines_no_break)
  then show ?thesis using False
    by (auto simp: parse_unified_diff_def Let_def state_wf_def flush_file_def split: option.splits)
qed

section \<open>Parsing rendered lines\<close>

lemma no_break_literals:
  "no_break ''--- ''" "no_break ''+++ ''" "no_break ''@@ -''" "no_break '',''"
  "no_break '' +''" "no_break '' @@''"
  by (simp_all add: no_break_def is_linebreak_def)

lemma no_break_hunk_header_line: "no_break (hunk_header_line h)"
  using str_nat_no_break [of "old_start h"] str_nat_no_break [of "old_count h"]
    str_nat_no_break [of "new_start h"] str_nat_no_break [of "new_count h"]
  by (simp add: hunk_header_line_def no_break_def is_linebreak_def)

lemma no_break_render_line: "line_wf l \<Longrightarrow> no_break (render_line l)"
  by (auto simp: render_line_def line_wf_def no_break_def line_prefix_def is_linebreak_def)

lemma no_break_hunk_lines: "hunk_wf h \<Longrightarrow> x \<in> set (hunk_lines h) \<Longrightarrow> no_break x"
  by (auto simp: hunk_lines_def hunk_wf_def no_break_hunk_header_line list_all_iff
      no_break_render_line)

lemma no_break_file_lines:
  assumes "file_wf f"
  shows "list_all no_break (file_lines f)"
proof -
  from assms have "no_break (''--- '' @ old_path f)" and "no_break (''+++ '' @ new_path f)"
    by (simp_all add: file_wf_def path_ok_def no_break_def is_linebreak_def)
  moreover have "list_all no_break (concat (map hunk_lines (hunks f)))"
    using assms by (auto simp: file_wf_def list_all_iff intro: no_break_hunk_lines)
  ultimately show ?thesis by (simp add: file_lines_def del: append_Cons append_Nil)
qed

lemma takeWhile_no_tab: "CHR 0x09 \<notin> set p \<Longrightarrow> takeWhile (\<lambda>c. c \<noteq> CHR 0x09) p = p"
  by (induction p) auto

lemma path_group_strip: "path_ok p \<Longrightarrow> path_group pre p = strip_prefix pre p"
proof -
  assume "path_ok p"
  then have "CHR 0x09 \<notin> set (strip_prefix pre p)"
    by (auto simp: path_ok_def strip_prefix_def dest: in_set_dropD)
  then show ?thesis
    using takeWhile_no_tab [of "strip_prefix pre p"] by (simp add: path_group_def strip_prefix_def)
qed

lemma step_old_header:
  "path_ok p \<Longrightarrow> step s (''--- '' @ p) = s\<lparr>st_old_path := Some (strip_prefix ''a/'' p)\<rparr>"
  by (rule step_old_line) (simp add: old_file_match_def startswith_def path_group_strip)

lemma step_new_header:
  "path_ok p \<Longrightarrow> st_old_path s = Some op \<Longrightarrow>
     step s (''+++ '' @ p) =
       s\<lparr>st_new_path := Some (strip_prefix ''b/'' p),
         st_current_file := Some (mk_DiffFile op (strip_prefix ''b/'' p)),
         st_current_hunk := detach (st_current_hunk s)\<rparr>"
  by (rule step_new_line) (simp_all add: new_file_match_def startswith_def path_group_strip)

lemma not_digit_literals: "\<not> is_digit CHR '',''" "\<not> is_digit CHR '' ''"
  by (simp_all add: is_digit_def)

lemma count_group_rendered:
  "\<not> is_digit c \<Longrightarrow>
     count_group (CHR '','' # str_nat n @ c # rest) = (Some (str_nat n), c # rest)"
  by (simp add: count_group_def takeWhile_digits dropWhile_digits str_nat_digits str_nat_nonempty)

lemma hunk_header_match_rendered:
  "hunk_header_match (hunk_header_line h)
     = Some (old_start h, old_count h, new_start h, new_count h)"
proof -
  have line: "hunk_header_line h =
     ''@@ -'' @ (str_nat (old_start h) @ CHR '','' # str_nat (old_count h) @ CHR '' '' #
        CHR ''+'' # (str_nat (new_start h) @ CHR '','' # str_nat (new_count h) @ '' @@''))"
    by (simp add: hunk_header_line_def)
  show ?thesis
    unfolding line hunk_header_match_def
    by (simp add: startswith_def takeWhile_digits dropWhile_digits str_nat_digits
        str_nat_nonempty not_digit_literals count_group_rendered int_of_str_str_nat
        int_or_1_def Let_def)
qed

lemma hunk_header_line_plain:
  "\<not> file_header_match (hunk_header_line h)" "old_file_match (hunk_header_line h) = None"
  "new_file_match (hunk_header_line h) = None"
  by (simp_all add: hunk_header_line_def file_header_match_def old_file_match_def
      new_file_match_def startswith_def)

lemma step_hunk_header:
  "st_current_file s = Some cf \<Longrightarrow>
     step s (hunk_header_line h) =
       s\<lparr>st_current_file :=
           Some (cf\<lparr>hunks := hunks cf @
                   [mk_DiffHunk (old_start h) (old_count h) (new_start h) (new_count h)]\<rparr>),
         st_current_hunk := Attached,
         st_old_line_num := old_start h, st_new_line_num := new_start h\<rparr>"
  by (simp add: step_def hunk_header_line_plain hunk_header_match_rendered)

lemma render_line_plain:
  assumes "line_wf l"
  shows "\<not> file_header_match (render_line l)" "old_file_match (render_line l) = None"
    "new_file_match (render_line l) = None" "hunk_header_match (render_line l) = None"
  using assms
  by (cases "line_type l";
      simp add: render_line_def line_prefix_def line_wf_def file_header_match_def
        old_file_match_def new_file_match_def hunk_header_match_def startswith_Cons
        split: list.splits)+

lemma step_render_line:
  "line_wf l \<Longrightarrow> step s (render_line l) = content_line s (render_line l)"
  by (simp add: step_def render_line_plain)

lemma reparse_line:
  assumes "line_wf l"
    and "old_line_num l = (if line_type l = Addition then None else Some (st_old_line_num s))"
    and "new_line_num l = (if line_type l = Deletion then None else Some (st_new_line_num s))"
    and "st_current_hunk s = Attached" and "st_current_file s = Some cf"
    and "hunks cf = hs @ [h0]"
  shows "step s (render_line l) =
           s\<lparr>st_current_file := Some (cf\<lparr>hunks := hs @ [h0\<lparr>lines := lines h0 @ [l]\<rparr>]\<rparr>),
             st_old_line_num := (if line_type l = Addition then st_old_line_num s
                                 else st_old_line_num s + 1),
             st_new_line_num := (if line_type l = Deletion then st_new_line_num s
                                 else st_new_line_num s + 1)\<rparr>"
proof -
  have app: "append_to_last_hunk l' cf = cf\<lparr>hunks := hs @ [h0\<lparr>lines := lines h0 @ [l']\<rparr>]\<rparr>" for l'
    using assms(6) by (simp add: append_to_last_hunk_def)
  have "step s (render_line l) = content_line s (render_line l)"
    by (rule step_render_line [OF assms(1)])
  also have "\<dots> =
           s\<lparr>st_current_file := Some (cf\<lparr>hunks := hs @ [h0\<lparr>lines := lines h0 @ [l]\<rparr>]\<rparr>),
             st_old_line_num := (if line_type l = Addition then st_old_line_num s
                                 else st_old_line_num s + 1),
             st_new_line_num := (if line_type l = Deletion then st_new_line_num s
                                 else st_new_line_num s + 1)\<rparr>"
    using assms(2-5)
    by (cases l; cases "line_type l")
       (simp_all add: content_line_def render_line_def line_prefix_def startswith_def
          append_line_def app)
  finally show ?thesis .
qed

lemma reparse_lines:
  "list_all line_wf ls \<Longrightarrow>
   replays_exactly (st_old_line_num s) (st_new_line_num s) ls \<Longrightarrow>
   st_current_hunk s = Attached \<Longrightarrow> st_current_file s = Some cf \<Longrightarrow> hunks cf = hs @ [h0] \<Longrightarrow>
     st_files (foldl step s (map render_line ls)) = st_files s \<and>
     st_current_hunk (foldl step s (map render_line ls)) = Attached \<and>
     st_current_file (foldl step s (map render_line ls))
       = Some (cf\<lparr>hunks := hs @ [h0\<lparr>lines := lines h0 @ ls\<rparr>]\<rparr>)"
proof (induction ls arbitrary: s cf h0)
  case Nil
  then show ?case by simp
next
  case (Cons l ls)
  let ?cf = "cf\<lparr>hunks := hs @ [h0\<lparr>lines := lines h0 @ [l]\<rparr>]\<rparr>"
  let ?s = "s\<lparr>st_current_file := Some ?cf,
             st_old_line_num := (if line_type l = Addition then st_old_line_num s
                                 else st_old_line_num s + 1),
             st_new_line_num := (if line_type l = Deletion then st_new_line_num s
                                 else st_new_line_num s + 1)\<rparr>"
  from Cons.prems have wf: "line_wf l" "list_all line_wf ls" by simp_all
  from Cons.prems(2) have
    o: "old_line_num l = (if line_type l = Addition then None else Some (st_old_line_num s))"
    and n: "new_line_num l = (if line_type l = Deletion then None else Some (st_new_line_num s))"
    and r: "replays_exactly (st_old_line_num ?s) (st_new_line_num ?s) ls"
    by simp_all
  have st: "step s (render_line l) = ?s"
    by (rule reparse_line [OF wf(1) o n Cons.prems(3) Cons.prems(4) Cons.prems(5)])
  have "st_current_hunk ?s = Attached" using Cons.prems(3) by simp
  moreover have "st_current_file ?s = Some ?cf" by simp
  moreover have "hunks ?cf = hs @ [h0\<lparr>lines := lines h0 @ [l]\<rparr>]" by simp
  ultimately have
    "st_files (foldl step ?s (map render_line ls)) = st_files ?s \<and>
     st_current_hunk (foldl step ?s (map render_line ls)) = Attached \<and>
     st_current_file (foldl step ?s (map render_line ls))
       = Some (?cf\<lparr>hunks := hs @ [(h0\<lparr>lines := lines h0 @ [l]\<rparr>)
                                     \<lparr>lines := lines (h0\<lparr>lines := lines h0 @ [l]\<rparr>) @ ls\<rparr>]\<rparr>)"
    by (rule Cons.IH [OF wf(2) r])
  then show ?case by (simp add: st)
qed

lemma reparse_hunk:
  assumes "hunk_wf h" and "hunk_ok h" and "st_current_file s = Some cf"
  shows "st_files (foldl step s (hunk_lines h)) = st_files s \<and>
         st_current_file (foldl step s (hunk_lines h)) = Some (cf\<lparr>hunks := hunks cf @ [h]\<rparr>)"
proof -
  let ?h0 = "mk_DiffHunk (old_start h) (old_count h) (new_start h) (new_count h)"
  let ?cf = "cf\<lparr>hunks := hunks cf @ [?h0]\<rparr>"
  let ?s = "s\<lparr>st_current_file := Some ?cf, st_current_hunk := Attached,
             st_old_line_num := old_start h, st_new_line_num := new_start h\<rparr>"
  have st: "step s (hunk_header_line h) = ?s" by (rule step_hunk_header [OF assms(3)])
  have "list_all line_wf (lines h)" using assms(1) by (simp add: hunk_wf_def)
  moreover have "replays_exactly (st_old_line_num ?s) (st_new_line_num ?s) (lines h)"
    using assms(2) by (simp add: hunk_ok_def)
  moreover have "st_current_hunk ?s = Attached" by simp
  moreover have "st_current_file ?s = Some ?cf" by simp
  moreover have "hunks ?cf = hunks cf @ [?h0]" by simp
  ultimately have
    "st_files (foldl step ?s (map render_line (lines h))) = st_files ?s \<and>
     st_current_hunk (foldl step ?s (map render_line (lines h))) = Attached \<and>
     st_current_file (foldl step ?s (map render_line (lines h)))
       = Some (?cf\<lparr>hunks := hunks cf @ [?h0\<lparr>lines := lines ?h0 @ lines h\<rparr>]\<rparr>)"
    by (rule reparse_lines)
  moreover have "?h0\<lparr>lines := lines ?h0 @ lines h\<rparr> = h"
    by (cases h) (simp add: mk_DiffHunk_def)
  ultimately show ?thesis by (simp add: hunk_lines_def st)
qed

lemma reparse_hunks:
  "list_all hunk_wf hs \<Longrightarrow> list_all hunk_ok hs \<Longrightarrow> st_current_file s = Some cf \<Longrightarrow>
     st_files (foldl step s (concat (map hunk_lines hs))) = st_files s \<and>
     st_current_file (foldl step s (concat (map hunk_lines hs)))
       = Some (cf\<lparr>hunks := hunks cf @ hs\<rparr>)"
proof (induction hs arbitrary: s cf)
  case Nil
  then show ?case by simp
next
  case (Cons h hs)
  from Cons.prems have h: "hunk_wf h" "hunk_ok h" and hs: "list_all hunk_wf hs" "list_all hunk_ok hs"
    by simp_all
  from reparse_hunk [OF h Cons.prems(3)] have
    1: "st_files (foldl step s (hunk_lines h)) = st_files s"
    and 2: "st_current_file (foldl step s (hunk_lines h)) = Some (cf\<lparr>hunks := hunks cf @ [h]\<rparr>)"
    by simp_all
  from Cons.IH [OF hs 2] 1 show ?case by simp
qed

lemma reparse_file:
  assumes "file_wf f" and "file_ok f"
  shows "st_files (foldl step s (file_lines f)) = st_files s \<and>
         st_current_file (foldl step s (file_lines f)) = Some (reparsed_paths f)"
proof -
  let ?op = "strip_prefix ''a/'' (old_path f)"
  let ?np = "strip_prefix ''b/'' (new_path f)"
  let ?s1 = "s\<lparr>st_old_path := Some ?op\<rparr>"
  let ?s2 = "?s1\<lparr>st_new_path := Some ?np, st_current_file := Some (mk_DiffFile ?op ?np),
               st_current_hunk := detach (st_current_hunk ?s1)\<rparr>"
  from assms(1) have p: "path_ok (old_path f)" "path_ok (new_path f)"
    and hw: "list_all hunk_wf (hunks f)"
    by (simp_all add: file_wf_def)
  from assms(2) have ho: "list_all hunk_ok (hunks f)" by (simp add: file_ok_def)
  have 1: "step s (''--- '' @ old_path f) = ?s1" by (rule step_old_header [OF p(1)])
  have 2: "step ?s1 (''+++ '' @ new_path f) = ?s2" by (rule step_new_header [OF p(2)]) simp
  have cf: "st_current_file ?s2 = Some (mk_DiffFile ?op ?np)" by simp
  from reparse_hunks [OF hw ho cf] have
    "st_files (foldl step ?s2 (concat (map hunk_lines (hunks f)))) = st_files s"
    and "st_current_file (foldl step ?s2 (concat (map hunk_lines (hunks f))))
           = Some ((mk_DiffFile ?op ?np)\<lparr>hunks := hunks (mk_DiffFile ?op ?np) @ hunks f\<rparr>)"
    by simp_all
  moreover have "(mk_DiffFile ?op ?np)\<lparr>hunks := hunks (mk_DiffFile ?op ?np) @ hunks f\<rparr>
                   = reparsed_paths f"
    by (cases f) (simp add: mk_DiffFile_def reparsed_paths_def)
  ultimately show ?thesis
    by (simp add: file_lines_def 1 2 del: append_Cons append_Nil)
qed

lemma reparse_files:
  "list_all file_wf fs \<Longrightarrow> list_all file_ok fs \<Longrightarrow> fs \<noteq> [] \<Longrightarrow>
     st_files (foldl step s (concat (map file_lines fs))) = st_files s \<and>
     st_current_file (foldl step s (concat (map file_lines fs))) = Some (reparsed_paths (last fs))"
proof (induction fs arbitrary: s)
  case Nil
  then show ?case by simp
next
  case (Cons f fs)
  from Cons.prems have f: "file_wf f" "file_ok f" and fs: "list_all file_wf fs" "list_all file_ok fs"
    by simp_all
  note rf = reparse_file [OF f, of s]
  show ?case
  proof (cases "fs = []")
    case True
    with rf show ?thesis by simp
  next
    case False
    from Cons.IH [OF fs False, of "foldl step s (file_lines f)"] rf False show ?thesis by simp
  qed
qed

lemma parse_render_all:
  assumes "list_all file_wf fs" and "list_all file_ok fs"
  shows "parse_unified_diff (render_all fs)
           = (if fs = [] then [] else [reparsed_paths (last fs)])"
proof (cases "fs = []")
  case True
  then show ?thesis by (simp add: render_all_def parse_unified_diff_def)
next
  case False
  have nb: "list_all no_break (concat (map file_lines fs))"
    using assms(1) by (induction fs) (simp_all add: no_break_file_lines)
  have ne: "render_all fs \<noteq> []" using False by (simp add: render_all_Nil_iff)
  have "splitlines (render_all fs) = concat (map file_lines fs)"
    by (simp add: render_all_unlines splitlines_unlines [OF nb])
  with reparse_files [OF assms False, of init_state] ne False show ?thesis
    by (simp add: parse_unified_diff_def Let_def flush_file_def init_state_def)
qed

section \<open>Parsing the rendered parse\<close>

lemma reparsed_paths_id:
  "\<not> startswith (old_path f) ''a/'' \<Longrightarrow> \<not> startswith (new_path f) ''b/'' \<Longrightarrow>
     reparsed_paths f = f"
  by (simp add: reparsed_paths_def strip_prefix_def)

lemma render_parse_two_files:
  "parse_unified_diff (render_all (parse_unified_diff two_files_diff)) = [second_file]"
  by code_simp

text \<open>
  Claim C2, amended. For every input \<open>d\<close>, parsing the rendered parse of \<open>d\<close> gives no
  file when \<open>d\<close> parses to no file, and otherwise exactly one file: the last file of the
  parse of \<open>d\<close>, with the same hunks (headers, line kinds, contents and line numbers) and
  with its two paths as the header patterns read them back (a leading \<^verbatim>\<open>a/\<close> of the
  old path and a leading \<^verbatim>\<open>b/\<close> of the new path are removed). So the round trip gives
  the parse of \<open>d\<close> back when that parse is a single file whose old path does not start
  with \<^verbatim>\<open>a/\<close> and whose new path does not start with \<^verbatim>\<open>b/\<close>.
\<close>

theorem parse_render_roundtrip:
  "parse_unified_diff (render_all (parse_unified_diff d))
     = (if parse_unified_diff d = [] then []
        else [reparsed_paths (last (parse_unified_diff d))]) \<and>
   (parse_unified_diff d = [f] \<and> \<not> startswith (old_path f) ''a/'' \<and>
    \<not> startswith (new_path f) ''b/'' \<longrightarrow>
      parse_unified_diff (render_all (parse_unified_diff d)) = parse_unified_diff d)"
proof -
  have 1: "parse_unified_diff (render_all (parse_unified_diff d))
     = (if parse_unified_diff d = [] then []
        else [reparsed_paths (last (parse_unified_diff d))])"
    by (rule parse_render_all [OF parse_files_wf parse_files_ok])
  then show ?thesis by (auto simp: reparsed_paths_id)
qed

theorem parse_render_roundtrip_witness:
  "parse_unified_diff example_diff = [example_file] \<and>
   \<not> startswith (old_path example_file) ''a/'' \<and> \<not> startswith (new_path example_file) ''b/'' \<and>
   parse_unified_diff (render_all (parse_unified_diff example_diff)) = [example_file]"
proof -
  have 1: "\<not> startswith (old_path example_file) ''a/''" by code_simp
  have 2: "\<not> startswith (new_path example_file) ''b/''" by code_simp
  from parse_render_roundtrip [of example_diff example_file] parse_example_diff 1 2
  have "parse_unified_diff (render_all (parse_unified_diff example_diff))
          = parse_unified_diff example_diff"
    by blast
  with 1 2 show ?thesis by (simp add: parse_example_diff)
qed

theorem parse_render_roundtrip_counterexample:
  "parse_unified_diff two_files_diff = [example_file, second_file] \<and>
   parse_unified_diff (render_all (parse_unified_diff two_files_diff)) = [second_file] \<and>
   parse_unified_diff (render_all (parse_unified_diff two_files_diff))
     \<noteq> parse_unified_diff two_files_diff"
  by (simp add: parse_two_files render_parse_two_files [unfolded parse_two_files])

end
